theory Spec2Isabelle
  imports Complex_Main "HOL-Library.Word" "HOL-Library.Signed_Division" "HOL-Library.Monad_Syntax"
begin

unbundle bit_operations_syntax

section \<open>Conventions of the embedding\<close>

text \<open>
  The two source files are \<^verbatim>\<open>examples/fft.cpp\<close> (class \<^verbatim>\<open>BulkFFT\<close>) and
  \<^verbatim>\<open>include/bulk/partitionings/block.hpp\<close> (class \<^verbatim>\<open>block_partitioning\<close>).

  \<^item> The FFT engine's \<^verbatim>\<open>int\<close> members \<^verbatim>\<open>n\<close>, \<^verbatim>\<open>p\<close>, \<^verbatim>\<open>s\<close>, \<^verbatim>\<open>k1\<close> and its loop
    counters are natural numbers here. The constructor receives C++ \<^verbatim>\<open>int\<close>s, which are
    32-bit words here (\<open>sint\<close> reads the value, \<open>-\<close> wraps), and converts after its
    power-of-two check. Of the negative values only \<open>- 2 ^ 31\<close> passes that check; what
    the engine does with a negative \<open>n\<close>, \<open>p\<close> or \<open>s\<close> is not followed. On valid
    configurations the products the loops form stay bounded by \<open>n\<close> (the
    last value of \<open>c\<close> is \<open>k1 * np ^ rounds = n\<close>), so a 32-bit \<^verbatim>\<open>int\<close> that holds \<open>n\<close>
    never wraps and unbounded arithmetic computes what the machine computes. The same
    holds for the \<^verbatim>\<open>unsigned\<close> counters of the bit-reversal loop, which stay at or below
    the table length.
  \<^item> A loop whose exit depends on its data is a \<^theory_text>\<open>partial_function (option)\<close>:
    \<open>None\<close> is the run that never leaves the loop.
  \<^item> The weight tables hold \<^verbatim>\<open>std::polar(1.0, angle)\<close> in double precision. A table
    entry is recorded by its exact phase \<open>q\<close>, standing for the unit complex number of
    angle \<open>2 * pi * q\<close>; rounding is not modelled.
  \<^item> An \<^verbatim>\<open>index_type\<close> of the partitioning is a \<^verbatim>\<open>std::array\<close> of \<^verbatim>\<open>int\<close>: an \<open>int list\<close>
    whose length is the template parameter. A read or write outside the array and a
    division by zero are undefined behaviour in C++; the model returns \<open>None\<close> there.
    C++ \<^verbatim>\<open>/\<close> and \<^verbatim>\<open>%\<close> truncate towards zero: \<open>sdiv\<close> and \<open>smod\<close>. Sums and products
    are taken in unbounded integers; no property below concerns extents near the limits
    of \<^verbatim>\<open>int\<close>.
\<close>

section \<open>The distributed FFT engine: definitions\<close>

subsection \<open>Power-of-two test\<close>


subsection \<open>Bit-reversal table\<close>

text \<open>
  The inner loop of \<^verbatim>\<open>bitrev_init\<close>:
  \<^verbatim>\<open>for (auto k = 1u; k < n; k <<= 1) { val <<= 1; val |= (remaining & 1); remaining >>= 1; }\<close>
\<close>

partial_function (option) bitrev_loop :: "nat \<Rightarrow> nat \<Rightarrow> nat \<Rightarrow> nat \<Rightarrow> nat option" where
  "bitrev_loop k n val remaining =
     (if k < n
      then bitrev_loop (push_bit 1 k) n (push_bit 1 val OR (remaining AND 1)) (drop_bit 1 remaining)
      else Some val)"

declare bitrev_loop.simps [code]

text \<open>
  \<^verbatim>\<open>bitrev_init(rho)\<close> with \<open>n = rho.size()\<close>: the table \<open>[0]\<close> when \<open>n = 1\<close>, and
  otherwise entry \<open>j\<close> is what the inner loop leaves in \<^verbatim>\<open>val\<close>.
\<close>

definition bitrev_init :: "nat \<Rightarrow> nat list option" where
  "bitrev_init n =
     (if n = 1 then Some [0]
      else those (map (\<lambda>j. bitrev_loop 1 n 0 j) [0..<n]))"

text \<open>
  The same loop with the 32-bit wrap-around of \<^verbatim>\<open>unsigned\<close> written out on the counter \<open>k\<close>
  and on \<^verbatim>\<open>val\<close>, to show that it does not occur for table lengths up to \<open>2 ^ 31\<close>
  (lemma \<open>bitrev_init32_pow2\<close>). The lengths of an engine are at most \<open>n\<close>, an \<^verbatim>\<open>int\<close>.
\<close>

partial_function (option) bitrev_loop32 :: "nat \<Rightarrow> nat \<Rightarrow> nat \<Rightarrow> nat \<Rightarrow> nat option" where
  "bitrev_loop32 k n val remaining =
     (if k < n
      then bitrev_loop32 (push_bit 1 k mod 2 ^ 32) n
             ((push_bit 1 val OR (remaining AND 1)) mod 2 ^ 32) (drop_bit 1 remaining)
      else Some val)"

declare bitrev_loop32.simps [code]

definition bitrev_init32 :: "nat \<Rightarrow> nat list option" where
  "bitrev_init32 n =
     (if n = 1 then Some [0]
      else those (map (\<lambda>j. bitrev_loop32 1 n 0 j) [0..<n]))"

text \<open>
  The mathematical bit reversal on \<open>b\<close> bits, used to describe the table:
  the lowest bit of \<open>x\<close> becomes the highest of the result.
\<close>

fun bitrev :: "nat \<Rightarrow> nat \<Rightarrow> nat" where
  "bitrev 0 x = 0"
| "bitrev (Suc b) x = (x mod 2) * 2 ^ b + bitrev b (x div 2)"

subsection \<open>Weight tables\<close>

type_synonym phase = rat

text \<open>
  \<^verbatim>\<open>ufft_init(n, ws)\<close>: \<open>n div 2\<close> weights, \<^verbatim>\<open>ws[j] = std::polar(1.0, j * theta)\<close> with
  \<^verbatim>\<open>theta = -2.0 * M_PI / n\<close>, that is phase \<open>- j / n\<close>.
\<close>

definition ufft_init :: "nat \<Rightarrow> phase list" where
  "ufft_init n = map (\<lambda>j. - (of_nat j / of_nat n)) [0..<n div 2]"

subsection \<open>Initialisation of the engine\<close>

text \<open>\<^verbatim>\<open>for (c = 1; c < p; c *= np) ;\<close>\<close>

partial_function (option) k1_loop :: "nat \<Rightarrow> nat \<Rightarrow> nat \<Rightarrow> nat option" where
  "k1_loop c p np = (if c < p then k1_loop (c * np) p np else Some c)"

declare k1_loop.simps [code]

text \<open>\<^verbatim>\<open>for (c = k1; c <= p; c *= np) count++;\<close>\<close>

partial_function (option) count_loop :: "nat \<Rightarrow> nat \<Rightarrow> nat \<Rightarrow> nat \<Rightarrow> nat option" where
  "count_loop c p np count = (if c \<le> p then count_loop (c * np) p np (count + 1) else Some count)"

declare count_loop.simps [code]

text \<open>
  One block of \<^verbatim>\<open>tw\<close>: \<^verbatim>\<open>alpha = (s % c) / (double)c\<close>,
  \<^verbatim>\<open>theta = -2.0 * M_PI * alpha / np\<close>, and one weight
  \<^verbatim>\<open>std::polar(1.0, rho * theta)\<close> for every entry \<open>rho\<close> of \<^verbatim>\<open>rho_np\<close>.
\<close>

definition tw_block :: "nat \<Rightarrow> nat \<Rightarrow> nat \<Rightarrow> nat list \<Rightarrow> phase list" where
  "tw_block c np s rho_np =
     map (\<lambda>rho. - (of_nat rho * (of_nat (s mod c) / of_nat c) / of_nat np)) rho_np"

text \<open>
  \<^verbatim>\<open>for (c = k1; c <= p; c *= np) { ... *tw_cur++ = ... }\<close>: the blocks are written one
  after the other into \<^verbatim>\<open>tw\<close>.
\<close>

partial_function (option) tw_loop ::
    "nat \<Rightarrow> nat \<Rightarrow> nat \<Rightarrow> nat \<Rightarrow> nat list \<Rightarrow> phase list \<Rightarrow> phase list option" where
  "tw_loop c p np s rho_np tw =
     (if c \<le> p then tw_loop (c * np) p np s rho_np (tw @ tw_block c np s rho_np)
      else Some tw)"

declare tw_loop.simps [code]

record engine =
  fft_n :: nat
  fft_p :: nat
  fft_s :: nat
  fft_k1 :: nat
  fft_w0 :: "phase list"
  fft_w :: "phase list"
  fft_tw :: "phase list"
  rho_np :: "nat list"
  rho_p :: "nat list"

text \<open>
  \<^verbatim>\<open>bspfft_init()\<close>, in the order of the source: \<open>k1\<close>, the two bit-reversal tables,
  the weights \<^verbatim>\<open>w0\<close> and \<^verbatim>\<open>w\<close>, the count of twiddle blocks and the blocks themselves.
  \<open>None\<close> is an initialisation that never returns.
\<close>

definition bspfft_init :: "nat \<Rightarrow> nat \<Rightarrow> nat \<Rightarrow> engine option" where
  "bspfft_init n p s =
     (let np = n div p in
      do {
        c \<leftarrow> k1_loop 1 p np;
        let k1 = n div c;
        rnp \<leftarrow> bitrev_init np;
        rp \<leftarrow> bitrev_init p;
        let w0 = ufft_init k1;
        let w = ufft_init np;
        count \<leftarrow> count_loop k1 p np 0;
        tw \<leftarrow> tw_loop k1 p np s rnp [];
        Some \<lparr> fft_n = n, fft_p = p, fft_s = s, fft_k1 = k1,
               fft_w0 = w0, fft_w = w, fft_tw = tw, rho_np = rnp, rho_p = rp \<rparr>
      })"

text \<open>
  The number of redistribution rounds of a configuration: what \<^verbatim>\<open>bspfft_init\<close> counts
  into \<^verbatim>\<open>count\<close>.
\<close>

definition rounds :: "nat \<Rightarrow> nat \<Rightarrow> nat option" where
  "rounds n p =
     (let np = n div p in
      do { c \<leftarrow> k1_loop 1 p np; count_loop (n div c) p np 0 })"

text \<open>
  The round count as the spec words it, \<open>\<lceil>log\<^sub>n\<^sub>p (p / k1)\<rceil>\<close>, for comparison with \<open>rounds\<close>.
\<close>

definition spec_rounds :: "nat \<Rightarrow> nat \<Rightarrow> nat \<Rightarrow> int" where
  "spec_rounds n p k1 = \<lceil>log (real (n div p)) (real p / real k1)\<rceil>"






subsection \<open>Group-cyclic redistribution\<close>

record packet =
  destproc :: nat
  destindex :: nat
  size' :: nat
  reads :: "nat list"

text \<open>
  The index arithmetic of \<^verbatim>\<open>bspredistr(xs, c0, c1, reversed)\<close> on rank \<open>s\<close>.
  \<open>redistr_ratio\<close>, \<open>redistr_size\<close> and \<open>npackets\<close> are the locals \<^verbatim>\<open>ratio\<close>, \<^verbatim>\<open>size\<close>
  and \<^verbatim>\<open>npackets\<close>; \<open>bspredistr_packet\<close> is one pass of the loop over \<open>j\<close>: the local
  indices \<^verbatim>\<open>j + r * ratio\<close> it gathers into \<^verbatim>\<open>tmp\<close> (\<open>reads\<close>), and the destination
  \<^verbatim>\<open>xs(destproc)[{destindex, destindex + size}]\<close> of the put.
\<close>

definition redistr_ratio :: "nat \<Rightarrow> nat \<Rightarrow> nat" where
  "redistr_ratio c0 c1 = c1 div c0"

definition redistr_size :: "nat \<Rightarrow> nat \<Rightarrow> nat \<Rightarrow> nat \<Rightarrow> nat" where
  "redistr_size n p c0 c1 = max ((n div p) div redistr_ratio c0 c1) 1"

definition npackets :: "nat \<Rightarrow> nat \<Rightarrow> nat \<Rightarrow> nat \<Rightarrow> nat" where
  "npackets n p c0 c1 = (n div p) div redistr_size n p c0 c1"

definition bspredistr_packet ::
    "nat \<Rightarrow> nat \<Rightarrow> nat list \<Rightarrow> nat \<Rightarrow> nat \<Rightarrow> nat \<Rightarrow> bool \<Rightarrow> nat \<Rightarrow> packet" where
  "bspredistr_packet n p rp s c0 c1 reversed j =
     (let np = n div p;
          ratio = redistr_ratio c0 c1;
          sz = redistr_size n p c0 c1;
          j0 = (if reversed then (rp ! s) mod c0 else s mod c0);
          j2 = (if reversed then (rp ! s) div c0 else s div c0);
          jglob = j2 * c0 * np + j * c0 + j0
      in \<lparr> destproc = (jglob div (c1 * np)) * c1 + jglob mod c1,
           destindex = (jglob mod (c1 * np)) div c1,
           size' = sz,
           reads = map (\<lambda>r. j + r * ratio) [0..<sz] \<rparr>)"

definition bspredistr :: "nat \<Rightarrow> nat \<Rightarrow> nat list \<Rightarrow> nat \<Rightarrow> nat \<Rightarrow> nat \<Rightarrow> bool \<Rightarrow> packet list" where
  "bspredistr n p rp s c0 c1 reversed =
     map (bspredistr_packet n p rp s c0 c1 reversed) [0..<npackets n p c0 c1]"

text \<open>
  The redistribution calls of \<^verbatim>\<open>bspfft\<close>, in order:
  \<^verbatim>\<open>for (int c = k1; c <= p; c *= np) { bspredistr(xs, c0, c, rev); rev = false; c0 = c; ... }\<close>
  starting from \<open>c0 = 1\<close> and \<open>rev = true\<close>. Each entry is \<open>(c0, c, rev)\<close>.
\<close>

partial_function (option) bspfft_rounds ::
    "nat \<Rightarrow> nat \<Rightarrow> nat \<Rightarrow> nat \<Rightarrow> bool \<Rightarrow> (nat \<times> nat \<times> bool) list \<Rightarrow> (nat \<times> nat \<times> bool) list option" where
  "bspfft_rounds c p np c0 reversed calls =
     (if c \<le> p then bspfft_rounds (c * np) p np c False (calls @ [(c0, c, reversed)])
      else Some calls)"

declare bspfft_rounds.simps [code]

definition bspfft_schedule :: "engine \<Rightarrow> (nat \<times> nat \<times> bool) list option" where
  "bspfft_schedule e =
     bspfft_rounds (fft_k1 e) (fft_p e) (fft_n e div fft_p e) 1 True []"

section \<open>The block partitioning: definitions\<close>

subsection \<open>Arrays and C++ division\<close>

text \<open>
  \<^verbatim>\<open>a[i]\<close> on a \<^verbatim>\<open>std::array\<close> of \<^verbatim>\<open>int\<close>, read and write: \<open>None\<close> outside the array.
\<close>

definition arr_get :: "int list \<Rightarrow> int \<Rightarrow> int option" where
  "arr_get xs i = (if 0 \<le> i \<and> i < int (length xs) then Some (xs ! nat i) else None)"

definition arr_set :: "int list \<Rightarrow> int \<Rightarrow> int \<Rightarrow> int list option" where
  "arr_set xs i v = (if 0 \<le> i \<and> i < int (length xs) then Some (xs[nat i := v]) else None)"

text \<open>\<^verbatim>\<open>a / b\<close> and \<^verbatim>\<open>a % b\<close> on \<^verbatim>\<open>int\<close>: truncation towards zero, \<open>None\<close> for \<open>b = 0\<close>.\<close>

definition cpp_div :: "int \<Rightarrow> int \<Rightarrow> int option" where
  "cpp_div a b = (if b = 0 then None else Some (a sdiv b))"

definition cpp_mod :: "int \<Rightarrow> int \<Rightarrow> int option" where
  "cpp_mod a b = (if b = 0 then None else Some (a smod b))"

subsection \<open>The partitioning and its constructor\<close>

text \<open>
  The members \<^verbatim>\<open>global_size_\<close> and \<^verbatim>\<open>grid_size_\<close> of the base class and \<^verbatim>\<open>axes_\<close> and
  \<^verbatim>\<open>block_size_\<close> of \<^verbatim>\<open>block_partitioning<D, G>\<close>. \<open>D\<close> is the length of \<open>global_size\<close> and
  \<open>G\<close> the length of \<open>grid_size\<close>.
\<close>

record block_partitioning =
  global_size :: "int list"
  grid_size :: "int list"
  axes :: "int list"
  block_size :: "int list"

text \<open>
  The loop of the constructor:
  \<^verbatim>\<open>for (i = 0; i < G; ++i) { int d = axes_[i]; block_size_[d] = ((data_size[d] - 1) / grid[i]) + 1; }\<close>
\<close>

fun ctor_loop :: "int list \<Rightarrow> int list \<Rightarrow> int list \<Rightarrow> nat list \<Rightarrow> int list \<Rightarrow> int list option" where
  "ctor_loop data_size grid axs [] bs = Some bs"
| "ctor_loop data_size grid axs (i # is) bs =
     do {
       d \<leftarrow> arr_get axs (int i);
       ds \<leftarrow> arr_get data_size d;
       g \<leftarrow> arr_get grid (int i);
       qt \<leftarrow> cpp_div (ds - 1) g;
       bs' \<leftarrow> arr_set bs d (qt + 1);
       ctor_loop data_size grid axs is bs'
     }"

text \<open>\<^verbatim>\<open>block_partitioning(data_size, grid, axes)\<close>: \<^verbatim>\<open>block_size_ = data_size\<close>, then the loop.\<close>

definition block_partitioning_ctor ::
    "int list \<Rightarrow> int list \<Rightarrow> int list \<Rightarrow> block_partitioning option" where
  "block_partitioning_ctor data_size grid axs =
     do {
       bs \<leftarrow> ctor_loop data_size grid axs [0..<length grid] data_size;
       Some \<lparr> global_size = data_size, grid_size = grid, axes = axs, block_size = bs \<rparr>
     }"

text \<open>\<^verbatim>\<open>iota_()\<close>, the axes of the two-argument constructor: \<open>0, 1, ..., G - 1\<close>.\<close>

definition iota :: "nat \<Rightarrow> int list" where
  "iota G = map int [0..<G]"

subsection \<open>The four operations\<close>

text \<open>
  \<^verbatim>\<open>global_to_local(index)\<close>:
  \<^verbatim>\<open>for (d = 0; d < D; ++d) index[d] = index[d] % block_size_[d];\<close>
\<close>

fun global_to_local_loop :: "int list \<Rightarrow> nat list \<Rightarrow> int list \<Rightarrow> int list option" where
  "global_to_local_loop bs [] index = Some index"
| "global_to_local_loop bs (d # ds) index =
     do {
       x \<leftarrow> arr_get index (int d);
       b \<leftarrow> arr_get bs (int d);
       m \<leftarrow> cpp_mod x b;
       index' \<leftarrow> arr_set index (int d) m;
       global_to_local_loop bs ds index'
     }"

definition global_to_local :: "block_partitioning \<Rightarrow> int list \<Rightarrow> int list option" where
  "global_to_local P index =
     global_to_local_loop (block_size P) [0..<length (global_size P)] index"

text \<open>
  \<^verbatim>\<open>local_size(idxs)\<close>, with \<^verbatim>\<open>size = global_size_\<close> at the start:
  \<^verbatim>\<open>for (i = 0; i < G; ++i) { auto dim = axes_[i];
       size[dim] = (global_size_[dim] + grid_size_[i] - idxs[dim] - 1) / grid_size_[i]; }\<close>
  The grid index \<^verbatim>\<open>idxs\<close> has \<open>G\<close> entries and is read at \<^verbatim>\<open>dim\<close>.
\<close>

fun local_size_loop ::
    "block_partitioning \<Rightarrow> int list \<Rightarrow> nat list \<Rightarrow> int list \<Rightarrow> int list option" where
  "local_size_loop P idxs [] sz = Some sz"
| "local_size_loop P idxs (i # is) sz =
     do {
       dim \<leftarrow> arr_get (axes P) (int i);
       gs \<leftarrow> arr_get (global_size P) dim;
       gr \<leftarrow> arr_get (grid_size P) (int i);
       ix \<leftarrow> arr_get idxs dim;
       qt \<leftarrow> cpp_div (gs + gr - ix - 1) gr;
       sz' \<leftarrow> arr_set sz dim qt;
       local_size_loop P idxs is sz'
     }"

definition local_size :: "block_partitioning \<Rightarrow> int list \<Rightarrow> int list option" where
  "local_size P idxs = local_size_loop P idxs [0..<length (grid_size P)] (global_size P)"

text \<open>
  \<^verbatim>\<open>grid_owner(xs)\<close>, with \<^verbatim>\<open>result = {}\<close> (\<open>G\<close> zeros) at the start:
  \<^verbatim>\<open>for (i = 0; i < G; ++i) { auto d = axes_[i]; result[i] = xs[d] / block_size_[d]; }\<close>
\<close>

fun grid_owner_loop ::
    "block_partitioning \<Rightarrow> int list \<Rightarrow> nat list \<Rightarrow> int list \<Rightarrow> int list option" where
  "grid_owner_loop P xs [] result = Some result"
| "grid_owner_loop P xs (i # is) result =
     do {
       d \<leftarrow> arr_get (axes P) (int i);
       x \<leftarrow> arr_get xs d;
       b \<leftarrow> arr_get (block_size P) d;
       qt \<leftarrow> cpp_div x b;
       result' \<leftarrow> arr_set result (int i) qt;
       grid_owner_loop P xs is result'
     }"

definition grid_owner :: "block_partitioning \<Rightarrow> int list \<Rightarrow> int list option" where
  "grid_owner P xs =
     grid_owner_loop P xs [0..<length (grid_size P)] (replicate (length (grid_size P)) 0)"

text \<open>
  Modelled from the spec: \<^verbatim>\<open>util::flatten\<close>, which is not part of the two source files.
  The spec describes the conversion between a multi-index over the grid and a linear
  processor id as row-major: the last grid axis varies fastest.
\<close>

definition flatten :: "int list \<Rightarrow> int list \<Rightarrow> int" where
  "flatten volume idx = foldl (\<lambda>acc (n, i). acc * n + i) 0 (zip volume idx)"

text \<open>
  Modelled from the spec: \<^verbatim>\<open>util::unflatten\<close>, which is not part of the two source files:
  the row-major multi-index of a linear processor id, computed from the last axis
  backwards (\<open>unflatten_rev\<close> works on the reversed grid).
\<close>

fun unflatten_rev :: "int list \<Rightarrow> int \<Rightarrow> int list" where
  "unflatten_rev [] t = []"
| "unflatten_rev (n # ns) t = (t mod n) # unflatten_rev ns (t div n)"

definition unflatten :: "int list \<Rightarrow> int \<Rightarrow> int list" where
  "unflatten volume t = rev (unflatten_rev (rev volume) t)"

text \<open>
  \<^verbatim>\<open>origin(t)\<close>, with \<^verbatim>\<open>multi_index = util::unflatten<G>(grid_size_, t)\<close> and
  \<^verbatim>\<open>result = {}\<close> (\<open>D\<close> zeros) at the start:
  \<^verbatim>\<open>for (i = 0; i < G; ++i) { auto d = axes_[i]; result[d] = block_size_[d] * multi_index[d]; }\<close>
  The multi-index has \<open>G\<close> entries and is read at \<^verbatim>\<open>d\<close>.
\<close>

fun origin_loop ::
    "block_partitioning \<Rightarrow> int list \<Rightarrow> nat list \<Rightarrow> int list \<Rightarrow> int list option" where
  "origin_loop P multi_index [] result = Some result"
| "origin_loop P multi_index (i # is) result =
     do {
       d \<leftarrow> arr_get (axes P) (int i);
       b \<leftarrow> arr_get (block_size P) d;
       m \<leftarrow> arr_get multi_index d;
       result' \<leftarrow> arr_set result d (b * m);
       origin_loop P multi_index is result'
     }"

definition origin :: "block_partitioning \<Rightarrow> int \<Rightarrow> int list option" where
  "origin P t =
     origin_loop P (unflatten (grid_size P) t) [0..<length (grid_size P)]
       (replicate (length (global_size P)) 0)"

subsection \<open>The quantities of the consistency properties\<close>

text \<open>
  \<open>origin(flatten(grid_owner(g))) + global_to_local(g)\<close>, componentwise.
\<close>

definition owner_origin_plus_local :: "block_partitioning \<Rightarrow> int list \<Rightarrow> int list option" where
  "owner_origin_plus_local P g =
     do {
       ow \<leftarrow> grid_owner P g;
       org \<leftarrow> origin P (flatten (grid_size P) ow);
       loc \<leftarrow> global_to_local P g;
       Some (map2 (+) org loc)
     }"

text \<open>
  The local sizes on data axis \<open>d\<close> of the processors whose grid coordinate on grid axis
  \<open>i\<close> runs over \<open>0, ..., grid_size[i] - 1\<close>, the other coordinates being those of \<open>base\<close>;
  and their sum.
\<close>

definition local_sizes_along ::
    "block_partitioning \<Rightarrow> nat \<Rightarrow> nat \<Rightarrow> int list \<Rightarrow> int list option" where
  "local_sizes_along P i d base =
     those (map (\<lambda>k. do { sz \<leftarrow> local_size P (base[i := int k]); arr_get sz (int d) })
                [0..<nat (grid_size P ! i)])"

definition local_size_sum :: "block_partitioning \<Rightarrow> nat \<Rightarrow> nat \<Rightarrow> int list \<Rightarrow> int option" where
  "local_size_sum P i d base = map_option sum_list (local_sizes_along P i d base)"

section \<open>The distributed FFT engine: properties\<close>

subsection \<open>Bit reversal\<close>

lemma bitrev_step: "push_bit 1 v OR (r AND 1) = 2 * v + r mod (2::nat)"
proof (cases "even r")
  case True
  then show ?thesis by (simp add: and_one_eq mod2_eq_if)
next
  case False
  have "v * 2 OR Suc 0 = Suc (2 * v)" by (simp add: or_Suc_0_eq)
  with False show ?thesis by (simp add: and_one_eq mod2_eq_if)
qed

lemma bitrev_loop_run:
  "bitrev_loop (2 ^ i) (2 ^ (i + b)) val r = Some (val * 2 ^ b + bitrev b r)"
proof (induction b arbitrary: i val r)
  case 0
  show ?case by (subst bitrev_loop.simps) simp
next
  case (Suc b)
  have lt: "(2::nat) ^ i < 2 ^ (i + Suc b)"
    by (rule power_strict_increasing) simp_all
  have "bitrev_loop (2 ^ i) (2 ^ (i + Suc b)) val r =
        bitrev_loop (push_bit 1 (2 ^ i)) (2 ^ (i + Suc b)) (push_bit 1 val OR (r AND 1)) (drop_bit 1 r)"
    by (subst bitrev_loop.simps) (simp only: lt if_True)
  also have "\<dots> = bitrev_loop (2 ^ Suc i) (2 ^ (Suc i + b)) (2 * val + r mod 2) (r div 2)"
    by (simp only: bitrev_step) (simp add: drop_bit_eq_div mult.commute)
  also have "\<dots> = Some ((2 * val + r mod 2) * 2 ^ b + bitrev b (r div 2))"
    by (rule Suc.IH)
  finally show ?case by (simp add: algebra_simps)
qed

lemma those_map_Some: "those (map (\<lambda>j. Some (f j)) xs) = Some (map f xs)"
  by (induction xs) simp_all

lemma bitrev_init_pow2: "bitrev_init (2 ^ b) = Some (map (bitrev b) [0..<2 ^ b])"
proof (cases b)
  case 0
  then show ?thesis by (simp add: bitrev_init_def)
next
  case (Suc b')
  have run: "bitrev_loop 1 (2 ^ b) 0 = (\<lambda>j. Some (bitrev b j))"
    using bitrev_loop_run [of 0 b 0] by (intro ext) simp
  have ne: "(2::nat) ^ b \<noteq> 1" using Suc by simp
  have "bitrev_init (2 ^ b) = those (map (\<lambda>j. Some (bitrev b j)) [0..<2 ^ b])"
    unfolding bitrev_init_def by (simp only: ne if_False run)
  then show ?thesis
    by (simp only: those_map_Some)
qed

lemma bitrev_less: "bitrev b x < 2 ^ b"
proof (induction b arbitrary: x)
  case 0
  show ?case by simp
next
  case (Suc b)
  have "x mod 2 * 2 ^ b \<le> 1 * 2 ^ b" by (rule mult_le_mono1) simp
  then have a: "x mod 2 * 2 ^ b \<le> 2 ^ b" by (simp only: mult_1)
  have b: "bitrev b (x div 2) < 2 ^ b" by (rule Suc.IH)
  have c: "(2::nat) ^ Suc b = 2 ^ b + 2 ^ b" by simp
  show ?case unfolding bitrev.simps c using a b by linarith
qed

lemma bitrev_zero: "bitrev b 0 = 0"
  by (induction b) simp_all

lemma bitrev_top: "bitrev (Suc b) x = 2 * bitrev b x + (x div 2 ^ b) mod 2"
proof (induction b arbitrary: x)
  case 0
  show ?case by simp
next
  case (Suc b)
  have "bitrev (Suc (Suc b)) x = (x mod 2) * 2 ^ Suc b + bitrev (Suc b) (x div 2)"
    by simp
  also have "\<dots> = (x mod 2) * 2 ^ Suc b + (2 * bitrev b (x div 2) + (x div 2 div 2 ^ b) mod 2)"
    by (simp only: Suc.IH)
  also have "x div 2 div 2 ^ b = x div 2 ^ Suc b"
    by (simp add: div_mult2_eq)
  finally show ?case by (simp add: algebra_simps)
qed

lemma mod_pow2_Suc: "(x::nat) mod 2 ^ Suc b = ((x div 2 ^ b) mod 2) * 2 ^ b + x mod 2 ^ b"
  using mod_mult2_eq [of x "2 ^ b" 2] by (simp add: mult.commute)

lemma bitrev_bitrev: "bitrev b (bitrev b x) = x mod 2 ^ b"
proof (induction b arbitrary: x)
  case 0
  show ?case by simp
next
  case (Suc b)
  define y where "y = bitrev (Suc b) x"
  have y: "y = 2 * bitrev b x + (x div 2 ^ b) mod 2"
    unfolding y_def by (rule bitrev_top)
  have ymod: "y mod 2 = (x div 2 ^ b) mod 2" unfolding y by simp
  have ydiv: "y div 2 = bitrev b x" unfolding y by simp
  have "bitrev (Suc b) y = (y mod 2) * 2 ^ b + bitrev b (y div 2)" by simp
  also have "\<dots> = ((x div 2 ^ b) mod 2) * 2 ^ b + x mod 2 ^ b"
    by (simp only: ymod ydiv Suc.IH)
  also have "\<dots> = x mod 2 ^ Suc b"
    by (simp only: mod_pow2_Suc)
  finally show ?case unfolding y_def .
qed

lemma bitrev_involution: "x < 2 ^ b \<Longrightarrow> bitrev b (bitrev b x) = x"
  by (simp add: bitrev_bitrev)

lemma bitrev_loop32_run:
  assumes "val < 2 ^ i" "i + b \<le> 31"
  shows "bitrev_loop32 (2 ^ i) (2 ^ (i + b)) val r = Some (val * 2 ^ b + bitrev b r)"
  using assms
proof (induction b arbitrary: i val r)
  case 0
  show ?case by (subst bitrev_loop32.simps) simp
next
  case (Suc b)
  have lt: "(2::nat) ^ i < 2 ^ (i + Suc b)"
    by (rule power_strict_increasing) simp_all
  have k: "(2::nat) ^ Suc i < 2 ^ 32"
    using Suc.prems(2) by (intro power_strict_increasing) simp_all
  have "2 * val + r mod 2 < 2 * 2 ^ i" using Suc.prems(1) by linarith
  then have v: "2 * val + r mod 2 < 2 ^ Suc i" by simp
  then have v32: "2 * val + r mod 2 < 2 ^ 32" using k by linarith
  have "bitrev_loop32 (2 ^ i) (2 ^ (i + Suc b)) val r =
        bitrev_loop32 (push_bit 1 (2 ^ i) mod 2 ^ 32) (2 ^ (i + Suc b))
          ((push_bit 1 val OR (r AND 1)) mod 2 ^ 32) (drop_bit 1 r)"
    by (subst bitrev_loop32.simps) (simp only: lt if_True)
  also have "push_bit 1 ((2::nat) ^ i) mod 2 ^ 32 = 2 ^ Suc i"
    using k by (simp add: mult.commute)
  also have "(push_bit 1 val OR (r AND 1)) mod 2 ^ 32 = 2 * val + r mod 2"
    using v32 by (simp only: bitrev_step mod_less)
  also have "drop_bit 1 r = r div 2" by (simp add: drop_bit_eq_div)
  also have "(2::nat) ^ (i + Suc b) = 2 ^ (Suc i + b)" by simp
  also have "bitrev_loop32 (2 ^ Suc i) (2 ^ (Suc i + b)) (2 * val + r mod 2) (r div 2)
      = Some ((2 * val + r mod 2) * 2 ^ b + bitrev b (r div 2))"
    using Suc.prems(2) by (intro Suc.IH v) simp
  finally show ?case by (simp add: algebra_simps)
qed

text \<open>
  On table lengths up to \<open>2 ^ 31\<close> the 32-bit loop never wraps: it builds the table of the
  unbounded loop.
\<close>

lemma bitrev_init32_pow2:
  assumes "b \<le> 31"
  shows "bitrev_init32 (2 ^ b) = bitrev_init (2 ^ b)"
proof (cases b)
  case 0
  then show ?thesis by (simp add: bitrev_init32_def bitrev_init_def)
next
  case (Suc b')
  have run: "bitrev_loop32 1 (2 ^ b) 0 = (\<lambda>j. Some (bitrev b j))"
    using bitrev_loop32_run [of 0 0 b] assms by (intro ext) simp
  have ne: "(2::nat) ^ b \<noteq> 1" using Suc by simp
  have "bitrev_init32 (2 ^ b) = those (map (\<lambda>j. Some (bitrev b j)) [0..<2 ^ b])"
    unfolding bitrev_init32_def by (simp only: ne if_False run)
  then show ?thesis
    by (simp only: those_map_Some bitrev_init_pow2)
qed

text \<open>
  C6. For every power-of-two length \<open>m = 2 ^ b\<close>, \<^verbatim>\<open>bitrev_init\<close> returns a table \<open>rho\<close>
  of that length with \<open>rho[rho[j]] = j\<close> for every \<open>j < m\<close> and \<open>rho[0] = 0\<close>; for
  \<open>m = 1\<close> the table is the identity \<open>[0]\<close>. (Up to \<open>m = 2 ^ 31\<close> the loop on 32-bit
  counters builds the same table, by \<open>bitrev_init32_pow2\<close>.)
\<close>

theorem bitrev_init_involution:
  "\<exists>rho. bitrev_init (2 ^ b) = Some rho \<and> length rho = 2 ^ b
     \<and> (\<forall>j < 2 ^ b. rho ! (rho ! j) = j) \<and> rho ! 0 = 0
     \<and> (b = 0 \<longrightarrow> rho = [0])"
proof -
  let ?rho = "map (bitrev b) [0..<2 ^ b]"
  have "\<forall>j < 2 ^ b. ?rho ! (?rho ! j) = j"
    by (simp add: bitrev_less bitrev_involution)
  moreover have "?rho ! 0 = 0"
    by (simp add: bitrev_zero)
  moreover have "b = 0 \<longrightarrow> ?rho = [0]"
    by simp
  ultimately show ?thesis
    using bitrev_init_pow2 [of b] by simp
qed

theorem bitrev_init_involution_witness:
  "\<exists>rho. bitrev_init 8 = Some rho \<and> length rho = 8 \<and> rho ! (rho ! 3) = 3 \<and> rho ! 0 = 0"
  using bitrev_init_involution [of 3] by auto

subsection \<open>The loops of the initialisation\<close>

lemma k1_loop_run:
  assumes "2 \<le> np" "0 < c"
  shows "\<exists>i. k1_loop c p np = Some (c * np ^ i) \<and> p \<le> c * np ^ i \<and> (\<forall>j<i. c * np ^ j < p)"
  using assms(2)
proof (induction "p - c" arbitrary: c rule: less_induct)
  case less
  show ?case
  proof (cases "c < p")
    case False
    then have "k1_loop c p np = Some c" by (subst k1_loop.simps) simp
    with False show ?thesis by (intro exI [of _ 0]) simp
  next
    case True
    have gt: "c < c * np" using assms(1) less.prems by simp
    then have "p - c * np < p - c" using True by linarith
    moreover have "0 < c * np" using gt by simp
    ultimately obtain i where i: "k1_loop (c * np) p np = Some (c * np * np ^ i)"
        "p \<le> c * np * np ^ i" "\<forall>j<i. c * np * np ^ j < p"
      using less.hyps by blast
    have "k1_loop c p np = k1_loop (c * np) p np"
      by (subst k1_loop.simps) (simp add: True)
    moreover have "\<forall>j<Suc i. c * np ^ j < p"
    proof (intro allI impI)
      fix j assume "j < Suc i"
      show "c * np ^ j < p"
      proof (cases j)
        case 0
        then show ?thesis using True by simp
      next
        case (Suc j')
        then have "j' < i" using \<open>j < Suc i\<close> by simp
        then have "c * np * np ^ j' < p" using i(3) by blast
        then show ?thesis using Suc by (simp add: mult.assoc)
      qed
    qed
    ultimately show ?thesis
      using i(1,2) by (intro exI [of _ "Suc i"]) (simp add: mult.assoc)
  qed
qed

lemma count_loop_run:
  assumes "2 \<le> np" "0 < c"
  shows "\<exists>m. count_loop c p np cnt = Some (cnt + m) \<and> p < c * np ^ m \<and> (\<forall>j<m. c * np ^ j \<le> p)"
  using assms(2)
proof (induction "Suc p - c" arbitrary: c cnt rule: less_induct)
  case less
  show ?case
  proof (cases "c \<le> p")
    case False
    then have "count_loop c p np cnt = Some cnt" by (subst count_loop.simps) simp
    with False show ?thesis by (intro exI [of _ 0]) simp
  next
    case True
    have gt: "c < c * np" using assms(1) less.prems by simp
    then have "Suc p - c * np < Suc p - c" using True by linarith
    moreover have "0 < c * np" using gt by simp
    ultimately obtain m where m: "count_loop (c * np) p np (cnt + 1) = Some (cnt + 1 + m)"
        "p < c * np * np ^ m" "\<forall>j<m. c * np * np ^ j \<le> p"
      using less.hyps by blast
    have "count_loop c p np cnt = count_loop (c * np) p np (cnt + 1)"
      by (subst count_loop.simps) (simp add: True)
    moreover have "\<forall>j<Suc m. c * np ^ j \<le> p"
    proof (intro allI impI)
      fix j assume "j < Suc m"
      show "c * np ^ j \<le> p"
      proof (cases j)
        case 0
        then show ?thesis using True by simp
      next
        case (Suc j')
        then have "j' < m" using \<open>j < Suc m\<close> by simp
        then have "c * np * np ^ j' \<le> p" using m(3) by blast
        then show ?thesis using Suc by (simp add: mult.assoc)
      qed
    qed
    ultimately show ?thesis
      using m(1,2) by (intro exI [of _ "Suc m"]) (simp add: mult.assoc)
  qed
qed

lemma k1_loop_returns:
  assumes "k1_loop c p np = Some y"
  shows "np \<le> 1 \<longrightarrow> p \<le> c"
proof (rule k1_loop.raw_induct [where P = "\<lambda>c p np y. np \<le> 1 \<longrightarrow> p \<le> c", OF _ assms])
  fix f :: "nat \<Rightarrow> nat \<Rightarrow> nat \<Rightarrow> nat option" and c p np y
  assume IH: "\<And>c p np y. f c p np = Some y \<Longrightarrow> np \<le> 1 \<longrightarrow> p \<le> c"
    and step: "(if c < p then f (c * np) p np else Some c) = Some y"
  show "np \<le> 1 \<longrightarrow> p \<le> c"
  proof (intro impI, rule ccontr)
    assume np: "np \<le> 1" and "\<not> p \<le> c"
    then have lt: "c < p" by simp
    with step have "f (c * np) p np = Some y" by simp
    then have "p \<le> c * np" using IH np by blast
    moreover have "c * np \<le> c" using np by (cases np) simp_all
    ultimately show False using lt by simp
  qed
qed

lemma k1_loop_diverges: "np \<le> 1 \<Longrightarrow> c < p \<Longrightarrow> k1_loop c p np = None"
  using k1_loop_returns [of c p np] by (cases "k1_loop c p np") auto

lemma count_loop_returns:
  assumes "count_loop c p np cnt = Some y"
  shows "np \<le> 1 \<longrightarrow> p < c"
proof (rule count_loop.raw_induct [where P = "\<lambda>c p np cnt y. np \<le> 1 \<longrightarrow> p < c", OF _ assms])
  fix f :: "nat \<Rightarrow> nat \<Rightarrow> nat \<Rightarrow> nat \<Rightarrow> nat option" and c p np cnt y
  assume IH: "\<And>c p np cnt y. f c p np cnt = Some y \<Longrightarrow> np \<le> 1 \<longrightarrow> p < c"
    and step: "(if c \<le> p then f (c * np) p np (cnt + 1) else Some cnt) = Some y"
  show "np \<le> 1 \<longrightarrow> p < c"
  proof (intro impI, rule ccontr)
    assume np: "np \<le> 1" and "\<not> p < c"
    then have le: "c \<le> p" by simp
    with step have "f (c * np) p np (cnt + 1) = Some y" by simp
    then have "p < c * np" using IH np by blast
    moreover have "c * np \<le> c" using np by (cases np) simp_all
    ultimately show False using le by simp
  qed
qed

lemma count_loop_diverges: "np \<le> 1 \<Longrightarrow> c \<le> p \<Longrightarrow> count_loop c p np cnt = None"
  using count_loop_returns [of c p np cnt] by (cases "count_loop c p np cnt") auto

lemma tw_loop_follows:
  assumes "count_loop c p np cnt = Some y"
  shows "\<forall>tw. \<exists>tw'. tw_loop c p np s rho tw = Some tw'
           \<and> length tw' + cnt * length rho = length tw + y * length rho"
proof (rule count_loop.raw_induct [where P = "\<lambda>c p np cnt y. \<forall>tw. \<exists>tw'. tw_loop c p np s rho tw = Some tw'
           \<and> length tw' + cnt * length rho = length tw + y * length rho", OF _ assms])
  fix f :: "nat \<Rightarrow> nat \<Rightarrow> nat \<Rightarrow> nat \<Rightarrow> nat option" and c p np cnt y
  assume IH: "\<And>c p np cnt y. f c p np cnt = Some y \<Longrightarrow> \<forall>tw. \<exists>tw'. tw_loop c p np s rho tw = Some tw'
           \<and> length tw' + cnt * length rho = length tw + y * length rho"
    and step: "(if c \<le> p then f (c * np) p np (cnt + 1) else Some cnt) = Some y"
  show "\<forall>tw. \<exists>tw'. tw_loop c p np s rho tw = Some tw'
           \<and> length tw' + cnt * length rho = length tw + y * length rho"
  proof
    fix tw
    show "\<exists>tw'. tw_loop c p np s rho tw = Some tw'
           \<and> length tw' + cnt * length rho = length tw + y * length rho"
    proof (cases "c \<le> p")
      case False
      then have "tw_loop c p np s rho tw = Some tw" by (subst tw_loop.simps) simp
      moreover have "y = cnt" using step False by simp
      ultimately show ?thesis by simp
    next
      case True
      with step have "f (c * np) p np (cnt + 1) = Some y" by simp
      from IH [OF this] obtain tw' where
        tw': "tw_loop (c * np) p np s rho (tw @ tw_block c np s rho) = Some tw'"
          "length tw' + (cnt + 1) * length rho = length (tw @ tw_block c np s rho) + y * length rho"
        by blast
      have "tw_loop c p np s rho tw = tw_loop (c * np) p np s rho (tw @ tw_block c np s rho)"
        by (subst tw_loop.simps) (simp add: True)
      moreover have "length tw' + cnt * length rho = length tw + y * length rho"
        using tw'(2) by (simp add: tw_block_def)
      ultimately show ?thesis using tw'(1) by simp
    qed
  qed
qed

lemma bspfft_rounds_follows:
  assumes "count_loop c p np cnt = Some y"
  shows "\<forall>c0 rv calls. \<exists>calls'. bspfft_rounds c p np c0 rv calls = Some calls'
           \<and> length calls' + cnt = length calls + y"
proof (rule count_loop.raw_induct [where P = "\<lambda>c p np cnt y. \<forall>c0 rv calls. \<exists>calls'.
           bspfft_rounds c p np c0 rv calls = Some calls'
           \<and> length calls' + cnt = length calls + y", OF _ assms])
  fix f :: "nat \<Rightarrow> nat \<Rightarrow> nat \<Rightarrow> nat \<Rightarrow> nat option" and c p np cnt y
  assume IH: "\<And>c p np cnt y. f c p np cnt = Some y \<Longrightarrow> \<forall>c0 rv calls. \<exists>calls'.
           bspfft_rounds c p np c0 rv calls = Some calls'
           \<and> length calls' + cnt = length calls + y"
    and step: "(if c \<le> p then f (c * np) p np (cnt + 1) else Some cnt) = Some y"
  show "\<forall>c0 rv calls. \<exists>calls'. bspfft_rounds c p np c0 rv calls = Some calls'
           \<and> length calls' + cnt = length calls + y"
  proof (intro allI)
    fix c0 rv calls
    show "\<exists>calls'. bspfft_rounds c p np c0 rv calls = Some calls'
           \<and> length calls' + cnt = length calls + y"
    proof (cases "c \<le> p")
      case False
      then have "bspfft_rounds c p np c0 rv calls = Some calls"
        by (subst bspfft_rounds.simps) simp
      moreover have "y = cnt" using step False by simp
      ultimately show ?thesis by simp
    next
      case True
      with step have "f (c * np) p np (cnt + 1) = Some y" by simp
      from IH [OF this] obtain calls' where
        c': "bspfft_rounds (c * np) p np c False (calls @ [(c0, c, rv)]) = Some calls'"
          "length calls' + (cnt + 1) = length (calls @ [(c0, c, rv)]) + y"
        by blast
      have "bspfft_rounds c p np c0 rv calls
            = bspfft_rounds (c * np) p np c False (calls @ [(c0, c, rv)])"
        by (subst bspfft_rounds.simps) (simp add: True)
      moreover have "length calls' + cnt = length calls + y"
        using c'(2) by simp
      ultimately show ?thesis using c'(1) by simp
    qed
  qed
qed

lemma pow2_div: "b \<le> a \<Longrightarrow> (2::nat) ^ a div 2 ^ b = 2 ^ (a - b)"
  by (simp add: power_diff)

lemma init_pow2:
  assumes "b < a"
  obtains t e where "a = e + (a - b) * t" and "0 < e" and "b \<le> (a - b) * t"
    and "\<forall>j<t. (a - b) * j < b"
    and "k1_loop 1 (2 ^ b) (2 ^ (a - b)) = Some (2 ^ ((a - b) * t))"
    and "\<And>cnt. count_loop (2 ^ e) (2 ^ b) (2 ^ (a - b)) cnt = Some (cnt + t)"
proof -
  define d where "d = a - b"
  have d: "0 < d" "a = b + d" using assms by (simp_all add: d_def)
  have np2: "2 \<le> (2::nat) ^ d" using d(1) by (cases d) simp_all
  obtain t where t: "k1_loop 1 (2 ^ b) (2 ^ d) = Some (1 * (2 ^ d) ^ t)"
      "2 ^ b \<le> 1 * ((2::nat) ^ d) ^ t" "\<forall>j<t. 1 * ((2::nat) ^ d) ^ j < 2 ^ b"
    using k1_loop_run [OF np2, of 1 "2 ^ b"] by auto
  have bt: "b \<le> d * t" using t(2) by (simp add: power_mult [symmetric])
  have jt: "\<forall>j<t. d * j < b" using t(3) by (simp add: power_mult [symmetric])
  have lt: "d * t < a"
  proof (cases t)
    case 0
    then show ?thesis using assms by simp
  next
    case (Suc t')
    then have "d * t' < b" using jt by simp
    then show ?thesis using Suc d(2) by simp
  qed
  define e where "e = a - d * t"
  have e: "a = e + d * t" "0 < e" using lt by (simp_all add: e_def)
  have cnt: "count_loop (2 ^ e) (2 ^ b) (2 ^ d) cnt = Some (cnt + t)" for cnt
  proof -
    obtain m where m: "count_loop (2 ^ e) (2 ^ b) (2 ^ d) cnt = Some (cnt + m)"
        "(2::nat) ^ b < 2 ^ e * (2 ^ d) ^ m" "\<forall>j<m. (2::nat) ^ e * (2 ^ d) ^ j \<le> 2 ^ b"
      using count_loop_run [OF np2, of "2 ^ e" "2 ^ b" cnt] by auto
    have bm: "b < e + d * m"
      using m(2) by (simp add: power_mult [symmetric] power_add [symmetric])
    have jm: "\<forall>j<m. e + d * j \<le> b"
      using m(3) by (simp add: power_mult [symmetric] power_add [symmetric])
    have "d * t < d * Suc m" using bm e(1) d(2) by simp
    then have "t < Suc m" using mult_less_cancel1 [of d t "Suc m"] by blast
    then have "t \<le> m" by simp
    moreover have "\<not> t < m"
    proof
      assume "t < m"
      then have "e + d * t \<le> b" using jm by blast
      then show False using e(1) d by simp
    qed
    ultimately have "m = t" by simp
    then show ?thesis using m(1) by simp
  qed
  show thesis
    using that [of e t] e bt jt t(1) cnt unfolding d_def by (simp add: power_mult)
qed

subsection \<open>Initialisation on powers of two\<close>

lemma bspfft_init_pow2:
  assumes "b < a"
  shows "\<exists>t e tw calls. a = e + (a - b) * t \<and> 0 < e \<and> b \<le> (a - b) * t
           \<and> (\<forall>j<t. (a - b) * j < b)
           \<and> rounds (2 ^ a) (2 ^ b) = Some t
           \<and> length tw = t * 2 ^ (a - b)
           \<and> bspfft_rounds (2 ^ e) (2 ^ b) (2 ^ (a - b)) 1 True [] = Some calls
           \<and> length calls = t
           \<and> bspfft_init (2 ^ a) (2 ^ b) s =
               Some \<lparr> fft_n = 2 ^ a, fft_p = 2 ^ b, fft_s = s, fft_k1 = 2 ^ e,
                      fft_w0 = ufft_init (2 ^ e), fft_w = ufft_init (2 ^ (a - b)), fft_tw = tw,
                      rho_np = map (bitrev (a - b)) [0..<2 ^ (a - b)],
                      rho_p = map (bitrev b) [0..<2 ^ b] \<rparr>"
proof -
  obtain t e where te: "a = e + (a - b) * t" "0 < e" "b \<le> (a - b) * t"
      "\<forall>j<t. (a - b) * j < b"
      "k1_loop 1 (2 ^ b) (2 ^ (a - b)) = Some (2 ^ ((a - b) * t))"
      "\<And>cnt. count_loop (2 ^ e) (2 ^ b) (2 ^ (a - b)) cnt = Some (cnt + t)"
    using init_pow2 [OF assms] by metis
  have np: "(2::nat) ^ a div 2 ^ b = 2 ^ (a - b)"
    using assms by (simp add: pow2_div)
  have "(a - b) * t \<le> a" using te(1) by simp
  then have "(2::nat) ^ a div 2 ^ ((a - b) * t) = 2 ^ (a - (a - b) * t)"
    by (rule pow2_div)
  moreover have "a - (a - b) * t = e" using te(1) by simp
  ultimately have k1: "(2::nat) ^ a div 2 ^ ((a - b) * t) = 2 ^ e" by simp
  have cnt: "count_loop (2 ^ e) (2 ^ b) (2 ^ (a - b)) 0 = Some t"
    using te(6) [of 0] by simp
  let ?rnp = "map (bitrev (a - b)) [0..<2 ^ (a - b)]"
  obtain tw where tw: "tw_loop (2 ^ e) (2 ^ b) (2 ^ (a - b)) s ?rnp [] = Some tw"
      "length tw + 0 * length ?rnp = length ([]::phase list) + t * length ?rnp"
    using tw_loop_follows [OF cnt, of s ?rnp] by blast
  obtain calls where calls: "bspfft_rounds (2 ^ e) (2 ^ b) (2 ^ (a - b)) 1 True [] = Some calls"
      "length calls + 0 = length ([]::(nat \<times> nat \<times> bool) list) + t"
    using bspfft_rounds_follows [OF cnt] by blast
  have r: "rounds (2 ^ a) (2 ^ b) = Some t"
    unfolding rounds_def Let_def np te(5) by (simp add: k1 cnt)
  have i: "bspfft_init (2 ^ a) (2 ^ b) s =
               Some \<lparr> fft_n = 2 ^ a, fft_p = 2 ^ b, fft_s = s, fft_k1 = 2 ^ e,
                      fft_w0 = ufft_init (2 ^ e), fft_w = ufft_init (2 ^ (a - b)), fft_tw = tw,
                      rho_np = ?rnp, rho_p = map (bitrev b) [0..<2 ^ b] \<rparr>"
    unfolding bspfft_init_def Let_def np te(5) by (simp add: k1 cnt bitrev_init_pow2 tw(1))
  have l: "length tw = t * 2 ^ (a - b)" using tw(2) by simp
  have lc: "length calls = t" using calls(2) by simp
  show ?thesis
    using te(1-4) r l calls(1) lc i by blast
qed

lemma spec_rounds_pow2:
  assumes "a = b + d" "0 < d" "a = e + d * t"
  shows "spec_rounds (2 ^ a) (2 ^ b) (2 ^ e) = int t - 1"
proof -
  have np: "(2::nat) ^ a div 2 ^ b = 2 ^ d"
    using assms(1) by (simp add: pow2_div)
  have bed: "real b - real e = real d * (real t - 1)"
  proof -
    have "b + d = e + d * t" using assms by simp
    then have "real (b + d) = real (e + d * t)" by simp
    then show ?thesis by (simp add: algebra_simps)
  qed
  have "real (2 ^ b) / real (2 ^ e) = 2 powr (real b - real e)"
    by (simp add: powr_diff powr_realpow)
  also have "\<dots> = 2 powr (real d * (real t - 1))" by (simp only: bed)
  also have "\<dots> = (2 powr real d) powr (real t - 1)" by (simp add: powr_powr)
  also have "\<dots> = (real (2 ^ d)) powr (real t - 1)" by (simp add: powr_realpow)
  finally have q: "real (2 ^ b) / real (2 ^ e) = (real (2 ^ d)) powr (real t - 1)" .
  have gt: "1 < real (2 ^ d)" using assms(2) by simp
  have "log (real (2 ^ d)) (real (2 ^ b) / real (2 ^ e)) = real t - 1"
    unfolding q using gt by (intro log_powr_cancel) simp_all
  then show ?thesis
    unfolding spec_rounds_def np by simp
qed

text \<open>
  The calls \<^verbatim>\<open>bspredistr(xs, c0, c, rev)\<close> that \<^verbatim>\<open>bspfft\<close> issues go between powers of two
  \<open>c0 \<le> c \<le> p\<close>: they meet the preconditions under which the redistribution is
  analysed below.
\<close>

lemma bspfft_rounds_pow2:
  assumes "bspfft_rounds c p np c0 rv calls = Some calls'"
  shows "\<forall>x y b d. c = 2 ^ x \<and> p = 2 ^ b \<and> np = 2 ^ d \<and> c0 = 2 ^ y \<and> y \<le> x
           \<and> (\<forall>call \<in> set calls. \<exists>e0 e1. fst call = 2 ^ e0 \<and> fst (snd call) = 2 ^ e1
                  \<and> e0 \<le> e1 \<and> e1 \<le> b)
         \<longrightarrow> (\<forall>call \<in> set calls'. \<exists>e0 e1. fst call = 2 ^ e0 \<and> fst (snd call) = 2 ^ e1
                  \<and> e0 \<le> e1 \<and> e1 \<le> b)"
proof (rule bspfft_rounds.raw_induct [where P = "\<lambda>c p np c0 rv calls calls'.
      \<forall>x y b d. c = 2 ^ x \<and> p = 2 ^ b \<and> np = 2 ^ d \<and> c0 = 2 ^ y \<and> y \<le> x
           \<and> (\<forall>call \<in> set calls. \<exists>e0 e1. fst call = 2 ^ e0 \<and> fst (snd call) = 2 ^ e1
                  \<and> e0 \<le> e1 \<and> e1 \<le> b)
         \<longrightarrow> (\<forall>call \<in> set calls'. \<exists>e0 e1. fst call = 2 ^ e0 \<and> fst (snd call) = 2 ^ e1
                  \<and> e0 \<le> e1 \<and> e1 \<le> b)", OF _ assms])
  fix f :: "nat \<Rightarrow> nat \<Rightarrow> nat \<Rightarrow> nat \<Rightarrow> bool \<Rightarrow> (nat \<times> nat \<times> bool) list \<Rightarrow> (nat \<times> nat \<times> bool) list option"
    and c p np c0 :: nat and rv :: bool and calls calls' :: "(nat \<times> nat \<times> bool) list"
  let ?good = "\<lambda>b (cs :: (nat \<times> nat \<times> bool) list).
      \<forall>call \<in> set cs. \<exists>e0 e1. fst call = 2 ^ e0 \<and> fst (snd call) = 2 ^ e1 \<and> e0 \<le> e1 \<and> e1 \<le> b"
  assume IH: "\<And>c p np c0 rv calls calls'. f c p np c0 rv calls = Some calls' \<Longrightarrow>
      \<forall>x y b d. c = 2 ^ x \<and> p = 2 ^ b \<and> np = 2 ^ d \<and> c0 = 2 ^ y \<and> y \<le> x \<and> ?good b calls
        \<longrightarrow> ?good b calls'"
    and step: "(if c \<le> p then f (c * np) p np c False (calls @ [(c0, c, rv)]) else Some calls)
        = Some calls'"
  show "\<forall>x y b d. c = 2 ^ x \<and> p = 2 ^ b \<and> np = 2 ^ d \<and> c0 = 2 ^ y \<and> y \<le> x \<and> ?good b calls
        \<longrightarrow> ?good b calls'"
  proof (intro allI impI, elim conjE)
    fix x y b d
    assume eq: "c = 2 ^ x" "p = 2 ^ b" "np = 2 ^ d" "c0 = 2 ^ y" and yx: "y \<le> x"
      and good: "?good b calls"
    show "?good b calls'"
    proof (cases "c \<le> p")
      case False
      then have "calls' = calls" using step by simp
      then show ?thesis using good by simp
    next
      case True
      then have xb: "x \<le> b" unfolding eq by simp
      have rec: "f (c * np) p np c False (calls @ [(c0, c, rv)]) = Some calls'"
        using step True by simp
      have "?good b (calls @ [(c0, c, rv)])"
      proof
        fix call assume "call \<in> set (calls @ [(c0, c, rv)])"
        then consider "call \<in> set calls" | "call = (c0, c, rv)" by auto
        then show "\<exists>e0 e1. fst call = 2 ^ e0 \<and> fst (snd call) = 2 ^ e1 \<and> e0 \<le> e1 \<and> e1 \<le> b"
        proof cases
          case 1
          then show ?thesis using good by blast
        next
          case 2
          then show ?thesis using eq yx xb by auto
        qed
      qed
      moreover have "c * np = 2 ^ (x + d)" unfolding eq by (simp add: power_add)
      ultimately show ?thesis
        using IH [OF rec, rule_format, of "x + d" b d x] eq by simp
    qed
  qed
qed

lemma bspfft_schedule_valid:
  assumes "b < a" "bspfft_init (2 ^ a) (2 ^ b) s = Some e" "bspfft_schedule e = Some calls"
  shows "\<forall>call \<in> set calls. \<exists>e0 e1. fst call = 2 ^ e0 \<and> fst (snd call) = 2 ^ e1
           \<and> e0 \<le> e1 \<and> e1 \<le> b"
proof -
  from bspfft_init_pow2 [OF assms(1), of s] obtain x tw where
    e: "e = \<lparr> fft_n = 2 ^ a, fft_p = 2 ^ b, fft_s = s, fft_k1 = 2 ^ x,
              fft_w0 = ufft_init (2 ^ x), fft_w = ufft_init (2 ^ (a - b)), fft_tw = tw,
              rho_np = map (bitrev (a - b)) [0..<2 ^ (a - b)],
              rho_p = map (bitrev b) [0..<2 ^ b] \<rparr>"
    using assms(2) by auto
  have np: "(2::nat) ^ a div 2 ^ b = 2 ^ (a - b)" using assms(1) by (simp add: pow2_div)
  have run: "bspfft_rounds (2 ^ x) (2 ^ b) (2 ^ (a - b)) (2 ^ 0) True [] = Some calls"
    using assms(3) by (simp add: bspfft_schedule_def e np)
  from bspfft_rounds_pow2 [OF run, rule_format, of x b "a - b" 0] show ?thesis by simp
qed

subsection \<open>Termination of the initialisation and the number of rounds\<close>

lemma bspfft_init_degenerate: "bspfft_init (2 ^ a) (2 ^ a) s = None"
proof (cases a)
  case 0
  have "count_loop 1 1 1 0 = None" by (rule count_loop_diverges) simp_all
  moreover have "k1_loop 1 1 1 = Some 1" by (subst k1_loop.simps) simp
  ultimately show ?thesis
    using 0 by (simp add: bspfft_init_def bitrev_init_def)
next
  case (Suc a')
  have "(2::nat) ^ 0 < 2 ^ a" using Suc by (intro power_strict_increasing) simp_all
  then have "(1::nat) < 2 ^ a" by simp
  then have "k1_loop 1 (2 ^ a) 1 = None" by (intro k1_loop_diverges) simp_all
  then show ?thesis by (simp add: bspfft_init_def)
qed

text \<open>
  C3 (amended). For powers of two \<open>n = 2 ^ a\<close> and \<open>p = 2 ^ b\<close> with \<open>p < n\<close>,
  \<^verbatim>\<open>bspfft_init\<close> terminates and leaves \<open>k1\<close> with \<open>k1 * np ^ rounds = n\<close>. The source has
  no special case for \<open>n = p\<close> (its comments ask for \<open>p < n\<close>): there \<open>np = 1\<close> and the
  initialisation never returns.
\<close>

theorem bspfft_init_terminates:
  "(b < a \<longrightarrow> (\<exists>e r. bspfft_init (2 ^ a) (2 ^ b) s = Some e \<and> fft_n e = 2 ^ a \<and> fft_p e = 2 ^ b
        \<and> rounds (2 ^ a) (2 ^ b) = Some r \<and> fft_k1 e * (2 ^ a div 2 ^ b) ^ r = 2 ^ a))
   \<and> bspfft_init (2 ^ a) (2 ^ a) s = None"
proof (intro conjI impI)
  assume ba: "b < a"
  from bspfft_init_pow2 [OF ba, of s] obtain t e tw calls where
    *: "a = e + (a - b) * t" "rounds (2 ^ a) (2 ^ b) = Some t"
       "bspfft_init (2 ^ a) (2 ^ b) s =
               Some \<lparr> fft_n = 2 ^ a, fft_p = 2 ^ b, fft_s = s, fft_k1 = 2 ^ e,
                      fft_w0 = ufft_init (2 ^ e), fft_w = ufft_init (2 ^ (a - b)), fft_tw = tw,
                      rho_np = map (bitrev (a - b)) [0..<2 ^ (a - b)],
                      rho_p = map (bitrev b) [0..<2 ^ b] \<rparr>"
    by blast
  have "(2::nat) ^ e * (2 ^ a div 2 ^ b) ^ t = 2 ^ (e + (a - b) * t)"
    using ba by (simp add: pow2_div power_add power_mult)
  then have "(2::nat) ^ e * (2 ^ a div 2 ^ b) ^ t = 2 ^ a" using *(1) by simp
  then show "\<exists>e r. bspfft_init (2 ^ a) (2 ^ b) s = Some e \<and> fft_n e = 2 ^ a \<and> fft_p e = 2 ^ b
        \<and> rounds (2 ^ a) (2 ^ b) = Some r \<and> fft_k1 e * (2 ^ a div 2 ^ b) ^ r = 2 ^ a"
    using *(2,3) by simp
next
  show "bspfft_init (2 ^ a) (2 ^ a) s = None" by (rule bspfft_init_degenerate)
qed

theorem bspfft_init_terminates_witness:
  "(1::nat) < 3 \<and> (\<exists>e. bspfft_init 8 2 0 = Some e \<and> fft_n e = 8 \<and> fft_p e = 2)
   \<and> bspfft_init 8 8 0 = None"
  using bspfft_init_terminates [of 1 3 0] by auto

text \<open>
  C3 as stated fails at \<open>n = p = 2\<close>: the search for \<open>k1\<close> multiplies \<open>c = 1\<close> by
  \<open>np = 1\<close> for ever.
\<close>

theorem bspfft_init_hangs_counterexample:
  "k1_loop 1 2 (2 div 2) = None \<and> bspfft_init 2 2 0 = None"
proof
  show "k1_loop 1 2 (2 div 2) = None" by (rule k1_loop_diverges) simp_all
  show "bspfft_init 2 2 0 = None" using bspfft_init_degenerate [of 1 0] by simp
qed

text \<open>
  C8 (amended). For powers of two \<open>n = 2 ^ a\<close> and \<open>p = 2 ^ b\<close> with \<open>p < n\<close>, the number
  \<open>r\<close> of redistribution rounds (the count of \<^verbatim>\<open>bspfft_init\<close>, the number of
  \<open>np\<close>-sized blocks of \<^verbatim>\<open>tw\<close> and the number of \<^verbatim>\<open>bspredistr\<close> calls of \<^verbatim>\<open>bspfft\<close>) is
  \<open>\<lceil>log\<^sub>n\<^sub>p (p / k1)\<rceil> + 1\<close>, the least \<open>r\<close> with \<open>p \<le> np ^ r\<close>; it is at least one
  exactly when \<open>p \<ge> 2\<close>.
\<close>

theorem rounds_pow2:
  assumes "b < a"
  shows "\<exists>r e calls. rounds (2 ^ a) (2 ^ b) = Some r
           \<and> bspfft_init (2 ^ a) (2 ^ b) s = Some e
           \<and> length (fft_tw e) = r * (2 ^ a div 2 ^ b)
           \<and> bspfft_schedule e = Some calls \<and> length calls = r
           \<and> int r = spec_rounds (2 ^ a) (2 ^ b) (fft_k1 e) + 1
           \<and> (2::nat) ^ b \<le> (2 ^ a div 2 ^ b) ^ r
           \<and> (\<forall>j<r. ((2::nat) ^ a div 2 ^ b) ^ j < 2 ^ b)
           \<and> (1 \<le> r \<longleftrightarrow> 2 \<le> (2::nat) ^ b)"
proof -
  from bspfft_init_pow2 [OF assms, of s] obtain t e tw calls where
    *: "a = e + (a - b) * t" "0 < e" "b \<le> (a - b) * t" "\<forall>j<t. (a - b) * j < b"
       "rounds (2 ^ a) (2 ^ b) = Some t" "length tw = t * 2 ^ (a - b)"
       "bspfft_rounds (2 ^ e) (2 ^ b) (2 ^ (a - b)) 1 True [] = Some calls" "length calls = t"
       "bspfft_init (2 ^ a) (2 ^ b) s =
               Some \<lparr> fft_n = 2 ^ a, fft_p = 2 ^ b, fft_s = s, fft_k1 = 2 ^ e,
                      fft_w0 = ufft_init (2 ^ e), fft_w = ufft_init (2 ^ (a - b)), fft_tw = tw,
                      rho_np = map (bitrev (a - b)) [0..<2 ^ (a - b)],
                      rho_p = map (bitrev b) [0..<2 ^ b] \<rparr>"
    by blast
  let ?e = "\<lparr> fft_n = 2 ^ a, fft_p = 2 ^ b, fft_s = s, fft_k1 = 2 ^ e,
                      fft_w0 = ufft_init (2 ^ e), fft_w = ufft_init (2 ^ (a - b)), fft_tw = tw,
                      rho_np = map (bitrev (a - b)) [0..<2 ^ (a - b)],
                      rho_p = map (bitrev b) [0..<2 ^ b] \<rparr>"
  have np: "(2::nat) ^ a div 2 ^ b = 2 ^ (a - b)" using assms by (simp add: pow2_div)
  have 1: "length (fft_tw ?e) = t * (2 ^ a div 2 ^ b)" using *(6) np by simp
  have 2: "bspfft_schedule ?e = Some calls" using *(7) np by (simp add: bspfft_schedule_def)
  have 3: "int t = spec_rounds (2 ^ a) (2 ^ b) (fft_k1 ?e) + 1"
    using spec_rounds_pow2 [of a b "a - b" e t] assms *(1) by simp
  have 4: "(2::nat) ^ b \<le> (2 ^ a div 2 ^ b) ^ t"
    unfolding np using *(3) by (simp add: power_mult [symmetric])
  have 5: "\<forall>j<t. ((2::nat) ^ a div 2 ^ b) ^ j < 2 ^ b"
    unfolding np using *(4) by (simp add: power_mult [symmetric])
  have 6: "1 \<le> t \<longleftrightarrow> 2 \<le> (2::nat) ^ b"
  proof (cases t)
    case 0
    then have "b = 0" using *(3) by simp
    with 0 show ?thesis by simp
  next
    case (Suc t')
    then have "(a - b) * 0 < b" using *(4) by blast
    then have "0 < b" by simp
    then have "2 \<le> (2::nat) ^ b" by (cases b) simp_all
    with Suc show ?thesis by simp
  qed
  show ?thesis
    using *(5,9) 1 2 *(8) 3 4 5 6 by blast
qed

theorem rounds_pow2_witness:
  "(3::nat) < 4 \<and> rounds 16 8 = Some 3 \<and> (\<exists>r e. rounds 16 8 = Some r \<and> bspfft_init 16 8 0 = Some e
      \<and> length (fft_tw e) = r * 2 \<and> int r = spec_rounds 16 8 (fft_k1 e) + 1
      \<and> 8 \<le> (2::nat) ^ r \<and> (2::nat) ^ 2 < 8 \<and> 1 \<le> r)"
proof -
  have "(3::nat) < 4" by simp
  from rounds_pow2 [OF this, of 0] obtain r e where
    "rounds 16 8 = Some r" "bspfft_init 16 8 0 = Some e" "length (fft_tw e) = r * 2"
    "int r = spec_rounds 16 8 (fft_k1 e) + 1" "8 \<le> (2::nat) ^ r" "1 \<le> r"
    by auto
  moreover have "rounds 16 8 = Some 3" by code_simp
  ultimately show ?thesis by auto
qed

text \<open>
  C8 as stated fails at \<open>n = 8\<close>, \<open>p = 2\<close>: one round is run, and the formula of the
  claim gives \<open>\<lceil>log\<^sub>4 (2 / 2)\<rceil> = 0\<close>. With \<open>p = 1\<close> no round is run at all.
\<close>

theorem rounds_formula_counterexample:
  "rounds 8 2 = Some 1 \<and> map_option fft_k1 (bspfft_init 8 2 0) = Some 2
   \<and> spec_rounds 8 2 2 = 0 \<and> rounds 8 1 = Some 0"
proof (intro conjI)
  show "rounds 8 2 = Some 1" by code_simp
  show "map_option fft_k1 (bspfft_init 8 2 0) = Some 2" by code_simp
  show "spec_rounds 8 2 2 = 0" by (simp add: spec_rounds_def)
  show "rounds 8 1 = Some 0" by code_simp
qed

subsection \<open>Configuration checks\<close>
















subsection \<open>Index arithmetic of the redistribution\<close>

lemma jglob_split:
  fixes c0 ratio sz j j0 j2 :: nat
  assumes "j < ratio" "j0 < c0"
  shows "j * c0 + j0 < c0 * ratio"
    and "j2 * c0 * (ratio * sz) + j * c0 + j0 = (j2 * sz) * (c0 * ratio) + (j * c0 + j0)"
proof -
  have "j * c0 + j0 < j * c0 + c0" using assms(2) by simp
  also have "\<dots> = Suc j * c0" by simp
  also have "\<dots> \<le> ratio * c0" using assms(1) by (intro mult_le_mono1) simp
  finally show "j * c0 + j0 < c0 * ratio" by (simp add: mult.commute)
  show "j2 * c0 * (ratio * sz) + j * c0 + j0 = (j2 * sz) * (c0 * ratio) + (j * c0 + j0)"
    by (simp add: algebra_simps)
qed

lemma dest_caseA:
  fixes c0 ratio sz j j0 j2 :: nat
  assumes "0 < sz" "j < ratio" "j0 < c0"
  defines "jglob \<equiv> j2 * c0 * (ratio * sz) + j * c0 + j0"
  shows "jglob div (c0 * ratio * (ratio * sz)) * (c0 * ratio) + jglob mod (c0 * ratio)
           = (j2 div ratio) * (c0 * ratio) + (j * c0 + j0)"
    and "(jglob mod (c0 * ratio * (ratio * sz))) div (c0 * ratio) = (j2 mod ratio) * sz"
proof -
  let ?c1 = "c0 * ratio" and ?r = "j * c0 + j0"
  have r: "?r < ?c1" and g: "jglob = (j2 * sz) * ?c1 + ?r"
    using jglob_split [OF assms(2,3)] by (simp_all add: jglob_def)
  have c1: "0 < ?c1" by (rule le_less_trans [OF le0 r])
  have m: "jglob mod ?c1 = ?r" unfolding g using r by simp
  have d: "jglob div ?c1 = j2 * sz" unfolding g using r c1 by simp
  have "jglob div (?c1 * (ratio * sz)) = (j2 * sz) div (ratio * sz)"
    by (simp only: div_mult2_eq [of jglob "c0 * ratio" "ratio * sz"] d)
  also have "\<dots> = j2 div ratio" using assms(1) by simp
  finally have dd: "jglob div (?c1 * (ratio * sz)) = j2 div ratio" .
  show "jglob div (c0 * ratio * (ratio * sz)) * (c0 * ratio) + jglob mod (c0 * ratio)
           = (j2 div ratio) * (c0 * ratio) + (j * c0 + j0)"
    by (simp only: dd m)
  have "jglob mod (?c1 * (ratio * sz)) = ?c1 * ((j2 * sz) mod (ratio * sz)) + ?r"
    by (simp only: mod_mult2_eq [of jglob "c0 * ratio" "ratio * sz"] d m)
  then have "(jglob mod (?c1 * (ratio * sz))) div ?c1 = (j2 * sz) mod (ratio * sz)"
    using r c1 by simp
  also have "\<dots> = (j2 mod ratio) * sz" by (simp add: mult_mod_left)
  finally show "(jglob mod (c0 * ratio * (ratio * sz))) div (c0 * ratio) = (j2 mod ratio) * sz" .
qed

lemma jglob_less:
  fixes c0 np j j0 j2 m :: nat
  assumes "j < np" "j0 < c0" "j2 < m"
  shows "j2 * c0 * np + j * c0 + j0 < m * c0 * np"
proof -
  have "j * c0 + j0 < c0 * np" using jglob_split(1) [OF assms(1,2)] .
  then have "j2 * c0 * np + j * c0 + j0 < j2 * (c0 * np) + c0 * np" by (simp add: mult.assoc)
  also have "\<dots> = Suc j2 * (c0 * np)" by simp
  also have "\<dots> \<le> m * (c0 * np)" using assms(3) by (intro mult_le_mono1) simp
  finally show ?thesis by (simp add: mult.assoc)
qed

lemma dest_less:
  fixes c1 np q g :: nat
  assumes "0 < c1" "0 < np" "g < q * (c1 * np)"
  shows "g div (c1 * np) * c1 + g mod c1 < q * c1"
    and "(g mod (c1 * np)) div c1 < np"
proof -
  have "g div (c1 * np) < q"
    using assms by (simp add: less_mult_imp_div_less)
  then have "Suc (g div (c1 * np)) * c1 \<le> q * c1" by (intro mult_le_mono1) simp
  moreover have "g mod c1 < c1" using assms(1) by simp
  ultimately show "g div (c1 * np) * c1 + g mod c1 < q * c1" by simp
  have "g mod (c1 * np) < c1 * np" using assms(1,2) by simp
  then show "(g mod (c1 * np)) div c1 < np"
    using assms(1) by (simp add: less_mult_imp_div_less mult.commute)
qed

lemma dest_inj:
  fixes c1 np g g' :: nat
  assumes "0 < c1"
    and "g div (c1 * np) * c1 + g mod c1 = g' div (c1 * np) * c1 + g' mod c1"
    and "(g mod (c1 * np)) div c1 = (g' mod (c1 * np)) div c1"
  shows "g = g'"
proof -
  have dec: "x = x div (c1 * np) * (c1 * np) + ((x mod (c1 * np)) div c1 * c1 + x mod c1)" for x :: nat
  proof -
    have "(x mod (c1 * np)) mod c1 = x mod c1"
      by (rule mod_mod_cancel) simp
    then have "x mod (c1 * np) = (x mod (c1 * np)) div c1 * c1 + x mod c1"
      using div_mult_mod_eq [of "x mod (c1 * np)" c1] by simp
    then show ?thesis using div_mult_mod_eq [of x "c1 * np"] by simp
  qed
  have q: "g div (c1 * np) = g' div (c1 * np)" and r: "g mod c1 = g' mod c1"
  proof -
    have "(g div (c1 * np) * c1 + g mod c1) div c1 = (g' div (c1 * np) * c1 + g' mod c1) div c1"
      by (simp only: assms(2))
    then show "g div (c1 * np) = g' div (c1 * np)" using assms(1) by simp
    have "(g div (c1 * np) * c1 + g mod c1) mod c1 = (g' div (c1 * np) * c1 + g' mod c1) mod c1"
      by (simp only: assms(2))
    then show "g mod c1 = g' mod c1" by simp
  qed
  show ?thesis
    by (subst dec [of g], subst dec [of g']) (simp only: q r assms(3))
qed

lemma jglob_inj:
  fixes c0 np j j' j0 j0' j2 j2' :: nat
  assumes "j < np" "j' < np" "j0 < c0" "j0' < c0"
    and "j2 * c0 * np + j * c0 + j0 = j2' * c0 * np + j' * c0 + j0'"
  shows "j2 = j2' \<and> j = j' \<and> j0 = j0'"
proof -
  let ?r = "j * c0 + j0" and ?r' = "j' * c0 + j0'"
  have r: "?r < c0 * np" "?r' < c0 * np"
    using jglob_split(1) [OF assms(1,3)] jglob_split(1) [OF assms(2,4)] by simp_all
  have e: "j2 * (c0 * np) + ?r = j2' * (c0 * np) + ?r'"
    using assms(5) by (simp add: mult.assoc)
  have pos: "0 < c0 * np" by (rule le_less_trans [OF le0 r(1)])
  have "(j2 * (c0 * np) + ?r) div (c0 * np) = j2" "(j2' * (c0 * np) + ?r') div (c0 * np) = j2'"
    using r pos by simp_all
  with e have 1: "j2 = j2'" by simp
  with e have rr: "?r = ?r'" by simp
  have "?r div c0 = j" "?r' div c0 = j'" using assms(3,4) by simp_all
  with rr have 2: "j = j'" by simp
  with rr have 3: "j0 = j0'" by simp
  from 1 2 3 show ?thesis by simp
qed

lemma redistr_shape_A:
  fixes c0 ratio q sz :: nat
  assumes "0 < c0" "0 < ratio" "0 < q" "0 < sz"
  shows "redistr_ratio c0 (c0 * ratio) = ratio"
    and "(c0 * ratio * q * (ratio * sz)) div (c0 * ratio * q) = ratio * sz"
    and "redistr_size (c0 * ratio * q * (ratio * sz)) (c0 * ratio * q) c0 (c0 * ratio) = sz"
    and "npackets (c0 * ratio * q * (ratio * sz)) (c0 * ratio * q) c0 (c0 * ratio) = ratio"
proof -
  show 1: "redistr_ratio c0 (c0 * ratio) = ratio"
    using assms(1) by (simp add: redistr_ratio_def)
  have p: "0 < c0 * ratio * q" using assms by simp
  show 2: "(c0 * ratio * q * (ratio * sz)) div (c0 * ratio * q) = ratio * sz"
    using p by simp
  have "ratio * sz div ratio = sz" using assms(2) by simp
  then show 3: "redistr_size (c0 * ratio * q * (ratio * sz)) (c0 * ratio * q) c0 (c0 * ratio) = sz"
    unfolding redistr_size_def 1 2 using assms(4) by simp
  show "npackets (c0 * ratio * q * (ratio * sz)) (c0 * ratio * q) c0 (c0 * ratio) = ratio"
    unfolding npackets_def 2 3 using assms(4) by simp
qed

lemma redistr_shape_B:
  fixes c0 ratio q np :: nat
  assumes "0 < c0" "0 < ratio" "0 < q" "np < ratio"
  shows "redistr_ratio c0 (c0 * ratio) = ratio"
    and "(c0 * ratio * q * np) div (c0 * ratio * q) = np"
    and "redistr_size (c0 * ratio * q * np) (c0 * ratio * q) c0 (c0 * ratio) = 1"
    and "npackets (c0 * ratio * q * np) (c0 * ratio * q) c0 (c0 * ratio) = np"
proof -
  show 1: "redistr_ratio c0 (c0 * ratio) = ratio"
    using assms(1) by (simp add: redistr_ratio_def)
  have p: "0 < c0 * ratio * q" using assms by simp
  show 2: "(c0 * ratio * q * np) div (c0 * ratio * q) = np"
    using p by simp
  show 3: "redistr_size (c0 * ratio * q * np) (c0 * ratio * q) c0 (c0 * ratio) = 1"
    unfolding redistr_size_def 1 2 using assms(4) by simp
  show "npackets (c0 * ratio * q * np) (c0 * ratio * q) c0 (c0 * ratio) = np"
    unfolding npackets_def 2 3 by simp
qed

text \<open>The parameters of a redistribution between powers of two.\<close>

lemma pow2_redistr_params:
  assumes "e0 \<le> e1" "e1 \<le> b" "b \<le> a"
  obtains c0 ratio q np :: nat where "0 < c0" "0 < ratio" "0 < q" "0 < np"
    and "2 ^ e0 = c0" "2 ^ e1 = c0 * ratio" "2 ^ b = c0 * ratio * q"
    and "2 ^ a = c0 * ratio * q * np"
    and "(\<exists>sz. 0 < sz \<and> np = ratio * sz) \<or> np < ratio"
proof -
  have 1: "(2::nat) ^ e1 = 2 ^ e0 * 2 ^ (e1 - e0)"
    using assms(1) by (simp add: power_add [symmetric])
  have 2: "(2::nat) ^ b = 2 ^ e0 * 2 ^ (e1 - e0) * 2 ^ (b - e1)"
    using assms(2) unfolding 1 [symmetric] by (simp add: power_add [symmetric])
  have 3: "(2::nat) ^ a = 2 ^ e0 * 2 ^ (e1 - e0) * 2 ^ (b - e1) * 2 ^ (a - b)"
    using assms(3) unfolding 2 [symmetric] by (simp add: power_add [symmetric])
  have 4: "(\<exists>sz. 0 < sz \<and> (2::nat) ^ (a - b) = 2 ^ (e1 - e0) * sz) \<or> (2::nat) ^ (a - b) < 2 ^ (e1 - e0)"
  proof (cases "e1 - e0 \<le> a - b")
    case True
    then have "(2::nat) ^ (a - b) = 2 ^ (e1 - e0) * 2 ^ (a - b - (e1 - e0))"
      by (simp add: power_add [symmetric])
    then show ?thesis by (intro disjI1 exI [of _ "2 ^ (a - b - (e1 - e0))"]) simp
  next
    case False
    then show ?thesis by simp
  qed
  show thesis
    by (rule that [of "2 ^ e0" "2 ^ (e1 - e0)" "2 ^ (b - e1)" "2 ^ (a - b)"])
       (simp_all only: 1 2 3 4 zero_less_power zero_less_numeral)
qed

lemma packet_fields:
  fixes n p :: nat and rp :: "nat list" and s c0 c1 :: nat and reversed :: bool and j :: nat
  defines "sg \<equiv> (if reversed then rp ! s else s)"
  defines "g \<equiv> (sg div c0) * c0 * (n div p) + j * c0 + sg mod c0"
  shows "destproc (bspredistr_packet n p rp s c0 c1 reversed j)
           = g div (c1 * (n div p)) * c1 + g mod c1"
    and "destindex (bspredistr_packet n p rp s c0 c1 reversed j)
           = (g mod (c1 * (n div p))) div c1"
    and "size' (bspredistr_packet n p rp s c0 c1 reversed j) = redistr_size n p c0 c1"
    and "reads (bspredistr_packet n p rp s c0 c1 reversed j)
           = map (\<lambda>r. j + r * redistr_ratio c0 c1) [0..<redistr_size n p c0 c1]"
  by (simp_all add: bspredistr_packet_def Let_def sg_def g_def)

lemma packet_bounds_abs:
  fixes c0 ratio q np s j :: nat
  assumes pos: "0 < c0" "0 < ratio" "0 < q" "0 < np"
    and shape: "(\<exists>sz. 0 < sz \<and> np = ratio * sz) \<or> np < ratio"
    and sg: "(if reversed then rp ! s else s) < c0 * ratio * q"
    and j: "j < npackets (c0 * ratio * q * np) (c0 * ratio * q) c0 (c0 * ratio)"
  defines "pk \<equiv> bspredistr_packet (c0 * ratio * q * np) (c0 * ratio * q) rp s c0 (c0 * ratio) reversed j"
  shows "destproc pk < c0 * ratio * q"
    and "destindex pk + size' pk \<le> np"
    and "\<forall>i \<in> set (reads pk). i < np"
proof -
  define sg where "sg = (if reversed then rp ! s else s)"
  define j0 where "j0 = sg mod c0"
  define j2 where "j2 = sg div c0"
  have j0: "j0 < c0" using pos(1) by (simp add: j0_def)
  have "sg < c0 * (ratio * q)" using sg by (simp add: sg_def mult.assoc)
  then have j2: "j2 < ratio * q"
    unfolding j2_def using pos(1) by (simp add: less_mult_imp_div_less mult.commute)
  have npdiv: "(c0 * ratio * q * np) div (c0 * ratio * q) = np" using pos by simp
  note pf = packet_fields [where n = "c0 * ratio * q * np" and p = "c0 * ratio * q" and rp = rp
      and s = s and ?c0.0 = c0 and ?c1.0 = "c0 * ratio" and reversed = reversed and j = j,
      folded pk_def, unfolded npdiv, folded sg_def, folded j0_def j2_def]
  from shape show "destproc pk < c0 * ratio * q"
  proof
    assume "\<exists>sz. 0 < sz \<and> np = ratio * sz"
    then obtain sz where sz: "0 < sz" "np = ratio * sz" by blast
    have jr: "j < ratio" using j redistr_shape_A(4) [OF pos(1-3) sz(1)] by (simp add: sz(2))
    have "destproc pk = (j2 div ratio) * (c0 * ratio) + (j * c0 + j0)"
      unfolding pf(1) sz(2) by (rule dest_caseA(1) [OF sz(1) jr j0])
    moreover have "j2 div ratio < q"
      using j2 pos(2) by (simp add: less_mult_imp_div_less mult.commute)
    then have "Suc (j2 div ratio) * (c0 * ratio) \<le> q * (c0 * ratio)"
      by (intro mult_le_mono1) simp
    moreover have "j * c0 + j0 < c0 * ratio" by (rule jglob_split(1) [OF jr j0])
    ultimately show ?thesis by (simp add: mult.commute)
  next
    assume lt: "np < ratio"
    have jn: "j < np" using j redistr_shape_B(4) [OF pos(1-3) lt] by simp
    have "j2 * c0 * np + j * c0 + j0 < (ratio * q) * c0 * np" by (rule jglob_less [OF jn j0 j2])
    then have "j2 * c0 * np + j * c0 + j0 < q * (c0 * ratio * np)" by (simp add: mult_ac)
    from dest_less(1) [OF _ pos(4) this] pos(1,2)
    show ?thesis unfolding pf(1) by (simp add: mult.commute)
  qed
  from shape show "destindex pk + size' pk \<le> np"
  proof
    assume "\<exists>sz. 0 < sz \<and> np = ratio * sz"
    then obtain sz where sz: "0 < sz" "np = ratio * sz" by blast
    have jr: "j < ratio" using j redistr_shape_A(4) [OF pos(1-3) sz(1)] by (simp add: sz(2))
    have "destindex pk = (j2 mod ratio) * sz"
      unfolding pf(2) sz(2) by (rule dest_caseA(2) [OF sz(1) jr j0])
    moreover have "size' pk = sz"
      unfolding pf(3) using redistr_shape_A(3) [OF pos(1-3) sz(1)] by (simp add: sz(2))
    moreover have "Suc (j2 mod ratio) * sz \<le> ratio * sz"
      using pos(2) by (intro mult_le_mono1) (simp add: Suc_le_eq)
    ultimately show ?thesis by (simp add: sz(2))
  next
    assume lt: "np < ratio"
    have jn: "j < np" using j redistr_shape_B(4) [OF pos(1-3) lt] by simp
    have "j2 * c0 * np + j * c0 + j0 < (ratio * q) * c0 * np" by (rule jglob_less [OF jn j0 j2])
    then have "j2 * c0 * np + j * c0 + j0 < q * (c0 * ratio * np)" by (simp add: mult_ac)
    from dest_less(2) [OF _ pos(4) this] pos(1,2)
    have "destindex pk < np" unfolding pf(2) by simp
    moreover have "size' pk = 1"
      unfolding pf(3) using redistr_shape_B(3) [OF pos(1-3) lt] by simp
    ultimately show ?thesis by simp
  qed
  from shape show "\<forall>i \<in> set (reads pk). i < np"
  proof
    assume "\<exists>sz. 0 < sz \<and> np = ratio * sz"
    then obtain sz where sz: "0 < sz" "np = ratio * sz" by blast
    have jr: "j < ratio" using j redistr_shape_A(4) [OF pos(1-3) sz(1)] by (simp add: sz(2))
    have rd: "reads pk = map (\<lambda>r. j + r * ratio) [0..<sz]"
      unfolding pf(4) using redistr_shape_A(1,3) [OF pos(1-3) sz(1)] by (simp add: sz(2))
    have "j + r * ratio < ratio * sz" if "r < sz" for r
    proof -
      have "j + r * ratio < ratio + r * ratio" using jr by simp
      also have "\<dots> = Suc r * ratio" by simp
      also have "\<dots> \<le> sz * ratio" using that by (intro mult_le_mono1) simp
      finally show ?thesis by (simp add: mult.commute)
    qed
    then show ?thesis unfolding rd sz(2) by auto
  next
    assume lt: "np < ratio"
    have jn: "j < np" using j redistr_shape_B(4) [OF pos(1-3) lt] by simp
    have rd: "reads pk = map (\<lambda>r. j + r * ratio) [0..<1]"
      unfolding pf(4) using redistr_shape_B(1,3) [OF pos(1-3) lt] by simp
    show ?thesis unfolding rd using jn by simp
  qed
qed

lemma packet_disjoint_abs:
  fixes c0 ratio q np s s' j j' :: nat
  assumes pos: "0 < c0" "0 < ratio" "0 < q" "0 < np"
    and shape: "(\<exists>sz. 0 < sz \<and> np = ratio * sz) \<or> np < ratio"
    and j: "j < npackets (c0 * ratio * q * np) (c0 * ratio * q) c0 (c0 * ratio)"
    and j': "j' < npackets (c0 * ratio * q * np) (c0 * ratio * q) c0 (c0 * ratio)"
    and distinct: "(if reversed then rp ! s else s) \<noteq> (if reversed then rp ! s' else s') \<or> j \<noteq> j'"
  defines "pk \<equiv> bspredistr_packet (c0 * ratio * q * np) (c0 * ratio * q) rp s c0 (c0 * ratio) reversed j"
  defines "pk' \<equiv> bspredistr_packet (c0 * ratio * q * np) (c0 * ratio * q) rp s' c0 (c0 * ratio) reversed j'"
  assumes same: "destproc pk = destproc pk'"
  shows "destindex pk + size' pk \<le> destindex pk' \<or> destindex pk' + size' pk' \<le> destindex pk"
proof -
  define sg where "sg = (if reversed then rp ! s else s)"
  define sg' where "sg' = (if reversed then rp ! s' else s')"
  define j0 where "j0 = sg mod c0"
  define j2 where "j2 = sg div c0"
  define j0' where "j0' = sg' mod c0"
  define j2' where "j2' = sg' div c0"
  have j0: "j0 < c0" "j0' < c0" using pos(1) by (simp_all add: j0_def j0'_def)
  have sgeq: "sg = j2 * c0 + j0" "sg' = j2' * c0 + j0'"
    by (simp_all add: j0_def j2_def j0'_def j2'_def)
  have npdiv: "(c0 * ratio * q * np) div (c0 * ratio * q) = np" using pos by simp
  note pf = packet_fields [where n = "c0 * ratio * q * np" and p = "c0 * ratio * q" and rp = rp
      and s = s and ?c0.0 = c0 and ?c1.0 = "c0 * ratio" and reversed = reversed and j = j,
      folded pk_def, unfolded npdiv, folded sg_def, folded j0_def j2_def]
  note pf' = packet_fields [where n = "c0 * ratio * q * np" and p = "c0 * ratio * q" and rp = rp
      and s = s' and ?c0.0 = c0 and ?c1.0 = "c0 * ratio" and reversed = reversed and j = j',
      folded pk'_def, unfolded npdiv, folded sg'_def, folded j0'_def j2'_def]
  have c1: "0 < c0 * ratio" using pos by simp
  from shape show ?thesis
  proof
    assume "\<exists>sz. 0 < sz \<and> np = ratio * sz"
    then obtain sz where sz: "0 < sz" "np = ratio * sz" by blast
    have jr: "j < ratio" "j' < ratio"
      using j j' redistr_shape_A(4) [OF pos(1-3) sz(1)] by (simp_all add: sz(2))
    have dp: "destproc pk = (j2 div ratio) * (c0 * ratio) + (j * c0 + j0)"
      unfolding pf(1) sz(2) by (rule dest_caseA(1) [OF sz(1) jr(1) j0(1)])
    have dp': "destproc pk' = (j2' div ratio) * (c0 * ratio) + (j' * c0 + j0')"
      unfolding pf'(1) sz(2) by (rule dest_caseA(1) [OF sz(1) jr(2) j0(2)])
    have di: "destindex pk = (j2 mod ratio) * sz"
      unfolding pf(2) sz(2) by (rule dest_caseA(2) [OF sz(1) jr(1) j0(1)])
    have di': "destindex pk' = (j2' mod ratio) * sz"
      unfolding pf'(2) sz(2) by (rule dest_caseA(2) [OF sz(1) jr(2) j0(2)])
    have size: "size' pk = sz" "size' pk' = sz"
      unfolding pf(3) pf'(3) using redistr_shape_A(3) [OF pos(1-3) sz(1)] by (simp_all add: sz(2))
    have r: "j * c0 + j0 < c0 * ratio" "j' * c0 + j0' < c0 * ratio"
      by (rule jglob_split(1) [OF jr(1) j0(1)], rule jglob_split(1) [OF jr(2) j0(2)])
    have eq: "(j2 div ratio) * (c0 * ratio) + (j * c0 + j0)
        = (j2' div ratio) * (c0 * ratio) + (j' * c0 + j0')"
      using same dp dp' by simp
    have "((j2 div ratio) * (c0 * ratio) + (j * c0 + j0)) div (c0 * ratio) = j2 div ratio"
      "((j2' div ratio) * (c0 * ratio) + (j' * c0 + j0')) div (c0 * ratio) = j2' div ratio"
      using r c1 by simp_all
    with eq have qeq: "j2 div ratio = j2' div ratio" by simp
    with eq have req: "j * c0 + j0 = j' * c0 + j0'" by simp
    have "(j * c0 + j0) div c0 = j" "(j' * c0 + j0') div c0 = j'" using j0 by simp_all
    with req have jj: "j = j'" by simp
    with req have j0eq: "j0 = j0'" by simp
    have "sg \<noteq> sg'" using distinct jj by (simp add: sg_def sg'_def)
    then have "j2 \<noteq> j2'" using sgeq j0eq by auto
    then have "j2 mod ratio \<noteq> j2' mod ratio"
      using qeq div_mult_mod_eq [of j2 ratio] div_mult_mod_eq [of j2' ratio] by auto
    then consider "j2 mod ratio < j2' mod ratio" | "j2' mod ratio < j2 mod ratio"
      by linarith
    then show ?thesis
    proof cases
      case 1
      then have "Suc (j2 mod ratio) * sz \<le> (j2' mod ratio) * sz"
        by (intro mult_le_mono1) simp
      then show ?thesis unfolding di di' size by simp
    next
      case 2
      then have "Suc (j2' mod ratio) * sz \<le> (j2 mod ratio) * sz"
        by (intro mult_le_mono1) simp
      then show ?thesis unfolding di di' size by simp
    qed
  next
    assume lt: "np < ratio"
    have jn: "j < np" "j' < np"
      using j j' redistr_shape_B(4) [OF pos(1-3) lt] by simp_all
    have size: "size' pk = 1" "size' pk' = 1"
      unfolding pf(3) pf'(3) using redistr_shape_B(3) [OF pos(1-3) lt] by simp_all
    have "destindex pk \<noteq> destindex pk'"
    proof
      assume di: "destindex pk = destindex pk'"
      have "j2 * c0 * np + j * c0 + j0 = j2' * c0 * np + j' * c0 + j0'"
        by (rule dest_inj [OF c1 same [unfolded pf(1) pf'(1)] di [unfolded pf(2) pf'(2)]])
      from jglob_inj [OF jn j0 this] have "j2 = j2'" "j = j'" "j0 = j0'" by simp_all
      then have "sg = sg'" "j = j'" using sgeq by simp_all
      then show False using distinct by (simp add: sg_def sg'_def)
    qed
    then show ?thesis unfolding size by linarith
  qed
qed

lemma bitrev_table:
  assumes "bitrev_init (2 ^ b) = Some rp" "s < 2 ^ b"
  shows "rp ! s = bitrev b s" "rp ! s < 2 ^ b"
proof -
  have rp: "rp = map (bitrev b) [0..<2 ^ b]" using assms(1) by (simp add: bitrev_init_pow2)
  show "rp ! s = bitrev b s" unfolding rp using assms(2) by simp
  then show "rp ! s < 2 ^ b" by (simp add: bitrev_less)
qed

lemma bitrev_table_inj:
  assumes "bitrev_init (2 ^ b) = Some rp" "s < 2 ^ b" "s' < 2 ^ b" "rp ! s = rp ! s'"
  shows "s = s'"
proof -
  have "bitrev b s = bitrev b s'"
    using assms bitrev_table(1) [OF assms(1)] by simp
  then have "bitrev b (bitrev b s) = bitrev b (bitrev b s')" by simp
  then show ?thesis using assms(2,3) by (simp add: bitrev_involution)
qed

text \<open>
  C10. With \<open>n = 2 ^ a\<close>, \<open>p = 2 ^ b\<close>, \<open>c0 = 2 ^ e0\<close>, \<open>c1 = 2 ^ e1\<close>,
  \<open>1 \<le> c0 \<le> c1 \<le> p \<le> n\<close>, rank \<open>s < p\<close> and \<open>rho_p\<close> the bit-reversal table of length
  \<open>p\<close>, every packet of \<^verbatim>\<open>bspredistr\<close> reads local indices below \<open>np\<close>, goes to a
  processor below \<open>p\<close>, and is written to a range that ends at or before \<open>np\<close>.
\<close>

theorem bspredistr_in_bounds:
  assumes "e0 \<le> e1" "e1 \<le> b" "b \<le> a" "s < 2 ^ b" "bitrev_init (2 ^ b) = Some rp"
  shows "\<forall>pk \<in> set (bspredistr (2 ^ a) (2 ^ b) rp s (2 ^ e0) (2 ^ e1) reversed).
           (\<forall>i \<in> set (reads pk). i < 2 ^ a div 2 ^ b)
           \<and> destproc pk < 2 ^ b
           \<and> destindex pk + size' pk \<le> 2 ^ a div 2 ^ b"
proof
  fix pk assume "pk \<in> set (bspredistr (2 ^ a) (2 ^ b) rp s (2 ^ e0) (2 ^ e1) reversed)"
  then obtain j where j: "j < npackets (2 ^ a) (2 ^ b) (2 ^ e0) (2 ^ e1)"
      and pk: "pk = bspredistr_packet (2 ^ a) (2 ^ b) rp s (2 ^ e0) (2 ^ e1) reversed j"
    by (auto simp: bspredistr_def)
  obtain c0 ratio q np :: nat where pos: "0 < c0" "0 < ratio" "0 < q" "0 < np"
    and eq: "2 ^ e0 = c0" "2 ^ e1 = c0 * ratio" "2 ^ b = c0 * ratio * q"
      "2 ^ a = c0 * ratio * q * np"
    and shape: "(\<exists>sz. 0 < sz \<and> np = ratio * sz) \<or> np < ratio"
    using pow2_redistr_params [OF assms(1-3)] by metis
  have sg: "(if reversed then rp ! s else s) < c0 * ratio * q"
    using bitrev_table(2) [OF assms(5,4)] assms(4) by (simp add: eq(3))
  have npdiv: "(c0 * ratio * q * np) div (c0 * ratio * q) = np" using pos by simp
  show "(\<forall>i \<in> set (reads pk). i < 2 ^ a div 2 ^ b)
           \<and> destproc pk < 2 ^ b
           \<and> destindex pk + size' pk \<le> 2 ^ a div 2 ^ b"
    unfolding pk eq npdiv
    using packet_bounds_abs [OF pos shape sg j [unfolded eq]] by simp
qed

theorem bspredistr_in_bounds_witness:
  "bspredistr 16 4 [0, 2, 1, 3] 1 2 4 False \<noteq> []
   \<and> list_all (\<lambda>i. i < 4) (reads (hd (bspredistr 16 4 [0, 2, 1, 3] 1 2 4 False)))
   \<and> destproc (hd (bspredistr 16 4 [0, 2, 1, 3] 1 2 4 False)) < 4
   \<and> destindex (hd (bspredistr 16 4 [0, 2, 1, 3] 1 2 4 False))
       + size' (hd (bspredistr 16 4 [0, 2, 1, 3] 1 2 4 False)) \<le> 4"
proof -
  have rp: "bitrev_init (2 ^ 2) = Some [0, 2, 1, 3]" by code_simp
  have ne: "bspredistr 16 4 [0, 2, 1, 3] 1 2 4 False \<noteq> []" by code_simp
  then have mem: "hd (bspredistr 16 4 [0, 2, 1, 3] 1 2 4 False)
      \<in> set (bspredistr 16 4 [0, 2, 1, 3] 1 2 4 False)"
    by (rule hd_in_set)
  have "(1::nat) \<le> 2" "(2::nat) \<le> 2" "(2::nat) \<le> 4" "(1::nat) < 2 ^ 2" by simp_all
  from bspredistr_in_bounds [OF this rp, where reversed = False]
  have T: "\<forall>pk \<in> set (bspredistr 16 4 [0, 2, 1, 3] 1 2 4 False).
           (\<forall>i \<in> set (reads pk). i < 4) \<and> destproc pk < 4 \<and> destindex pk + size' pk \<le> 4"
    by simp
  from bspec [OF T mem] ne show ?thesis
    by (simp add: list_all_iff)
qed

text \<open>
  C7. In one redistribution round (\<open>n\<close>, \<open>p\<close>, \<open>c0\<close>, \<open>c1\<close> powers of two with
  \<open>1 \<le> c0 \<le> c1 \<le> p \<le> n\<close>, the same \<^verbatim>\<open>reversed\<close> flag on all ranks), two packets of
  distinct (source rank, packet index) pairs that go to the same destination processor are
  written to disjoint ranges \<open>[destindex, destindex + size)\<close>.
\<close>

theorem bspredistr_disjoint:
  assumes "e0 \<le> e1" "e1 \<le> b" "b \<le> a" "bitrev_init (2 ^ b) = Some rp"
    and "s < 2 ^ b" "s' < 2 ^ b"
    and "j < npackets (2 ^ a) (2 ^ b) (2 ^ e0) (2 ^ e1)"
    and "j' < npackets (2 ^ a) (2 ^ b) (2 ^ e0) (2 ^ e1)"
    and "(s, j) \<noteq> (s', j')"
    and "destproc (bspredistr_packet (2 ^ a) (2 ^ b) rp s (2 ^ e0) (2 ^ e1) reversed j)
         = destproc (bspredistr_packet (2 ^ a) (2 ^ b) rp s' (2 ^ e0) (2 ^ e1) reversed j')"
  shows "destindex (bspredistr_packet (2 ^ a) (2 ^ b) rp s (2 ^ e0) (2 ^ e1) reversed j)
           + size' (bspredistr_packet (2 ^ a) (2 ^ b) rp s (2 ^ e0) (2 ^ e1) reversed j)
         \<le> destindex (bspredistr_packet (2 ^ a) (2 ^ b) rp s' (2 ^ e0) (2 ^ e1) reversed j')
       \<or> destindex (bspredistr_packet (2 ^ a) (2 ^ b) rp s' (2 ^ e0) (2 ^ e1) reversed j')
           + size' (bspredistr_packet (2 ^ a) (2 ^ b) rp s' (2 ^ e0) (2 ^ e1) reversed j')
         \<le> destindex (bspredistr_packet (2 ^ a) (2 ^ b) rp s (2 ^ e0) (2 ^ e1) reversed j)"
proof -
  obtain c0 ratio q np :: nat where pos: "0 < c0" "0 < ratio" "0 < q" "0 < np"
    and eq: "2 ^ e0 = c0" "2 ^ e1 = c0 * ratio" "2 ^ b = c0 * ratio * q"
      "2 ^ a = c0 * ratio * q * np"
    and shape: "(\<exists>sz. 0 < sz \<and> np = ratio * sz) \<or> np < ratio"
    using pow2_redistr_params [OF assms(1-3)] by metis
  have distinct: "(if reversed then rp ! s else s) \<noteq> (if reversed then rp ! s' else s') \<or> j \<noteq> j'"
  proof (cases "j = j'")
    case False
    then show ?thesis by simp
  next
    case True
    then have "s \<noteq> s'" using assms(9) by simp
    then have "rp ! s \<noteq> rp ! s'"
      using bitrev_table_inj [OF assms(4,5,6)] by blast
    with \<open>s \<noteq> s'\<close> show ?thesis by simp
  qed
  show ?thesis
    using packet_disjoint_abs [OF pos shape assms(7) [unfolded eq] assms(8) [unfolded eq] distinct
        assms(10) [unfolded eq]]
    unfolding eq .
qed

theorem bspredistr_disjoint_witness:
  "((0::nat), (0::nat)) \<noteq> (2, 0) \<and> (0::nat) < npackets 16 4 1 4
   \<and> destproc (bspredistr_packet 16 4 [0, 2, 1, 3] 0 1 4 True 0)
       = destproc (bspredistr_packet 16 4 [0, 2, 1, 3] 2 1 4 True 0)
   \<and> (destindex (bspredistr_packet 16 4 [0, 2, 1, 3] 0 1 4 True 0)
         + size' (bspredistr_packet 16 4 [0, 2, 1, 3] 0 1 4 True 0)
       \<le> destindex (bspredistr_packet 16 4 [0, 2, 1, 3] 2 1 4 True 0)
      \<or> destindex (bspredistr_packet 16 4 [0, 2, 1, 3] 2 1 4 True 0)
         + size' (bspredistr_packet 16 4 [0, 2, 1, 3] 2 1 4 True 0)
       \<le> destindex (bspredistr_packet 16 4 [0, 2, 1, 3] 0 1 4 True 0))"
proof -
  have rp: "bitrev_init (2 ^ 2) = Some [0, 2, 1, 3]" by code_simp
  have j: "(0::nat) < npackets (2 ^ 4) (2 ^ 2) (2 ^ 0) (2 ^ 2)" by code_simp
  have d: "((0::nat), (0::nat)) \<noteq> (2, 0)" by simp
  have same: "destproc (bspredistr_packet (2 ^ 4) (2 ^ 2) [0, 2, 1, 3] 0 (2 ^ 0) (2 ^ 2) True 0)
       = destproc (bspredistr_packet (2 ^ 4) (2 ^ 2) [0, 2, 1, 3] 2 (2 ^ 0) (2 ^ 2) True 0)"
    by code_simp
  have "(0::nat) \<le> 2" "(2::nat) \<le> 2" "(2::nat) \<le> 4" "(0::nat) < 2 ^ 2" "(2::nat) < 2 ^ 2"
    by simp_all
  note T = bspredistr_disjoint [OF this(1-3) rp this(4,5) j j d same]
  have j': "(0::nat) < npackets 16 4 1 4" using j by simp
  have same': "destproc (bspredistr_packet 16 4 [0, 2, 1, 3] 0 1 4 True 0)
       = destproc (bspredistr_packet 16 4 [0, 2, 1, 3] 2 1 4 True 0)"
    using same by simp
  from T have T': "destindex (bspredistr_packet 16 4 [0, 2, 1, 3] 0 1 4 True 0)
         + size' (bspredistr_packet 16 4 [0, 2, 1, 3] 0 1 4 True 0)
       \<le> destindex (bspredistr_packet 16 4 [0, 2, 1, 3] 2 1 4 True 0)
      \<or> destindex (bspredistr_packet 16 4 [0, 2, 1, 3] 2 1 4 True 0)
         + size' (bspredistr_packet 16 4 [0, 2, 1, 3] 2 1 4 True 0)
       \<le> destindex (bspredistr_packet 16 4 [0, 2, 1, 3] 0 1 4 True 0)"
    by simp
  show ?thesis
    by (intro conjI) (rule d j' same' T')+
qed

section \<open>The block partitioning: properties\<close>

subsection \<open>The operations under the default (identity) axis map\<close>

lemma arr_get_nat: "i < length xs \<Longrightarrow> arr_get xs (int i) = Some (xs ! i)"
  by (simp add: arr_get_def)

lemma arr_set_nat: "i < length xs \<Longrightarrow> arr_set xs (int i) v = Some (xs[i := v])"
  by (simp add: arr_set_def)

lemma arr_get_iota: "i < G \<Longrightarrow> arr_get (iota G) (int i) = Some (int i)"
  by (simp add: arr_get_def iota_def)

lemma cpp_div_pos: "0 \<le> a \<Longrightarrow> 0 < b \<Longrightarrow> cpp_div a b = Some (a div b)"
  by (simp add: cpp_div_def signed_divide_int_def sgn_if)

lemma cpp_mod_pos: "0 \<le> a \<Longrightarrow> 0 < b \<Longrightarrow> cpp_mod a b = Some (a mod b)"
  by (simp add: cpp_mod_def signed_modulo_int_def sgn_if)

lemma upd_range_step:
  assumes "k < G" "G \<le> length sz"
  shows "map (\<lambda>d. if Suc k \<le> d \<and> d < G then f d else (sz[k := f k]) ! d) [0..<length sz]
       = map (\<lambda>d. if k \<le> d \<and> d < G then f d else sz ! d) [0..<length sz]"
  using assms by (intro nth_equalityI) (auto simp: nth_list_update)

lemma upd_range_done: "map (\<lambda>d. if G \<le> d \<and> d < G then f d else sz ! d) [0..<length sz] = sz"
  by (intro nth_equalityI) auto

text \<open>
  A loop that, at step \<open>k\<close>, stores \<open>f k\<close> at position \<open>k\<close> of its array, run over
  \<open>k, ..., G - 1\<close>. The step may rely on the positions from \<open>k\<close> on being untouched.
\<close>

lemma index_loop_range:
  fixes L :: "nat list \<Rightarrow> int list \<Rightarrow> int list option"
  assumes nil: "\<And>st. L [] st = Some st"
    and step: "\<And>k ks st. k < G \<Longrightarrow> length st = length st0
        \<Longrightarrow> (\<forall>d. k \<le> d \<and> d < length st0 \<longrightarrow> st ! d = st0 ! d)
        \<Longrightarrow> L (k # ks) st = L ks (st[k := f k])"
    and "G \<le> length st0" "length st = length st0" "k \<le> G"
    and "\<forall>d. k \<le> d \<and> d < length st0 \<longrightarrow> st ! d = st0 ! d"
  shows "L [k..<G] st
       = Some (map (\<lambda>d. if k \<le> d \<and> d < G then f d else st ! d) [0..<length st])"
  using assms(4-6)
proof (induction "G - k" arbitrary: k st)
  case 0
  then have "k = G" by simp
  then show ?case by (simp add: upd_range_done nil)
next
  case (Suc m)
  then have k: "k < G" by simp
  have up: "[k..<G] = k # [Suc k..<G]" using k by (simp add: upt_conv_Cons)
  have 1: "L [k..<G] st = L [Suc k..<G] (st[k := f k])"
    unfolding up by (rule step [OF k Suc.prems(1) Suc.prems(3)])
  have a: "m = G - Suc k" using Suc.hyps(2) by simp
  have b: "length (st[k := f k]) = length st0" using Suc.prems(1) by simp
  have c: "Suc k \<le> G" using k by simp
  have d: "\<forall>d. Suc k \<le> d \<and> d < length st0 \<longrightarrow> (st[k := f k]) ! d = st0 ! d"
  proof (intro allI impI)
    fix d assume "Suc k \<le> d \<and> d < length st0"
    then have "k \<noteq> d" "k \<le> d \<and> d < length st0" by simp_all
    then show "(st[k := f k]) ! d = st0 ! d" using Suc.prems(3) by simp
  qed
  have 2: "L [Suc k..<G] (st[k := f k])
      = Some (map (\<lambda>d. if Suc k \<le> d \<and> d < G then f d else (st[k := f k]) ! d)
                   [0..<length (st[k := f k])])"
    by (rule Suc.hyps(1) [OF a b c d])
  have "G \<le> length st" using assms(3) Suc.prems(1) by simp
  from upd_range_step [OF k this, of f]
  have 3: "map (\<lambda>d. if Suc k \<le> d \<and> d < G then f d else (st[k := f k]) ! d)
                   [0..<length (st[k := f k])]
       = map (\<lambda>d. if k \<le> d \<and> d < G then f d else st ! d) [0..<length st]"
    by (simp only: length_list_update)
  show ?case unfolding 1 2 3 ..
qed

lemma index_loop_all:
  fixes L :: "nat list \<Rightarrow> int list \<Rightarrow> int list option"
  assumes "\<And>st. L [] st = Some st"
    and "\<And>k ks st. k < G \<Longrightarrow> length st = length st0
        \<Longrightarrow> (\<forall>d. k \<le> d \<and> d < length st0 \<longrightarrow> st ! d = st0 ! d)
        \<Longrightarrow> L (k # ks) st = L ks (st[k := f k])"
    and "G \<le> length st0"
  shows "L [0..<G] st0 = Some (map (\<lambda>d. if d < G then f d else st0 ! d) [0..<length st0])"
proof -
  have "L [0..<G] st0
      = Some (map (\<lambda>d. if 0 \<le> d \<and> d < G then f d else st0 ! d) [0..<length st0])"
    by (rule index_loop_range [where ?st0.0 = st0, OF assms(1) assms(2) assms(3)]) simp_all
  then show ?thesis by simp
qed

lemma ctor_identity:
  assumes "length grid \<le> length data"
    and "\<forall>d<length data. 0 < data ! d" "\<forall>i<length grid. 0 < grid ! i"
  shows "block_partitioning_ctor data grid (iota (length grid))
       = Some \<lparr> global_size = data, grid_size = grid, axes = iota (length grid),
                block_size = map (\<lambda>d. if d < length grid then (data ! d - 1) div (grid ! d) + 1
                                       else data ! d) [0..<length data] \<rparr>"
proof -
  let ?G = "length grid"
  have "ctor_loop data grid (iota ?G) [0..<?G] data
      = Some (map (\<lambda>d. if d < ?G then (data ! d - 1) div (grid ! d) + 1 else data ! d)
                  [0..<length data])"
  proof (rule index_loop_all [where L = "ctor_loop data grid (iota ?G)" and ?st0.0 = data
        and G = ?G and f = "\<lambda>d. (data ! d - 1) div (grid ! d) + 1", OF _ _ assms(1)])
    show "ctor_loop data grid (iota ?G) [] st = Some st" for st by simp
  next
    fix k :: nat and ks :: "nat list" and st :: "int list"
    assume k: "k < ?G" and len: "length st = length data"
    have kd: "k < length data" "k < length st" using k assms(1) len by simp_all
    have g: "0 < grid ! k" using assms(3) k by simp
    have d: "0 \<le> data ! k - 1" using assms(2) kd(1) by (simp add: order.strict_implies_order)
    show "ctor_loop data grid (iota ?G) (k # ks) st
        = ctor_loop data grid (iota ?G) ks (st[k := (data ! k - 1) div (grid ! k) + 1])"
      by (simp add: arr_get_iota [OF k] arr_get_nat [OF kd(1)] arr_get_nat [OF k]
            cpp_div_pos [OF d g] arr_set_nat [OF kd(2)])
  qed
  then show ?thesis by (simp add: block_partitioning_ctor_def)
qed

lemma ceil_block_covers:
  fixes a g :: int
  assumes "0 < g"
  shows "a < (a div g + 1) * g"
proof -
  have "a = a div g * g + a mod g" by simp
  moreover have "a mod g < g" using assms by simp
  ultimately have "a < a div g * g + g" by linarith
  then show ?thesis by (simp add: algebra_simps)
qed

lemma identity_fields:
  assumes G: "length grid \<le> length data"
    and pd: "\<forall>d<length data. 0 < data ! d" and pg: "\<forall>i<length grid. 0 < grid ! i"
    and P: "block_partitioning_ctor data grid (iota (length grid)) = Some P"
  shows "global_size P = data" "grid_size P = grid" "axes P = iota (length grid)"
    and "length (block_size P) = length data"
    and "\<forall>d<length grid. block_size P ! d = (data ! d - 1) div (grid ! d) + 1"
    and "\<forall>d. length grid \<le> d \<and> d < length data \<longrightarrow> block_size P ! d = data ! d"
    and "\<forall>d<length data. 0 < block_size P ! d"
    and "\<forall>d<length grid. data ! d \<le> block_size P ! d * grid ! d"
proof -
  have Peq: "P = \<lparr> global_size = data, grid_size = grid, axes = iota (length grid),
                block_size = map (\<lambda>d. if d < length grid then (data ! d - 1) div (grid ! d) + 1
                                       else data ! d) [0..<length data] \<rparr>"
    using ctor_identity [OF G pd pg] P by simp
  show "global_size P = data" "grid_size P = grid" "axes P = iota (length grid)"
    "length (block_size P) = length data"
    by (simp_all add: Peq)
  show bG: "\<forall>d<length grid. block_size P ! d = (data ! d - 1) div (grid ! d) + 1"
    using G by (simp add: Peq)
  show bD: "\<forall>d. length grid \<le> d \<and> d < length data \<longrightarrow> block_size P ! d = data ! d"
    by (simp add: Peq)
  show "\<forall>d<length data. 0 < block_size P ! d"
  proof (intro allI impI)
    fix d assume d: "d < length data"
    show "0 < block_size P ! d"
    proof (cases "d < length grid")
      case True
      have "0 \<le> data ! d - 1" using pd d by (simp add: order.strict_implies_order)
      moreover have "0 < grid ! d" using pg True by simp
      ultimately have "0 \<le> (data ! d - 1) div (grid ! d)" by (simp add: pos_imp_zdiv_nonneg_iff)
      then show ?thesis using bG True by simp
    next
      case False
      then show ?thesis using bD pd d by simp
    qed
  qed
  show "\<forall>d<length grid. data ! d \<le> block_size P ! d * grid ! d"
  proof (intro allI impI)
    fix d assume d: "d < length grid"
    have "0 < grid ! d" using pg d by simp
    from ceil_block_covers [OF this, of "data ! d - 1"] show "data ! d \<le> block_size P ! d * grid ! d"
      using bG d by simp
  qed
qed

lemma grid_owner_identity:
  assumes G: "length grid \<le> length data"
    and pd: "\<forall>d<length data. 0 < data ! d" and pg: "\<forall>i<length grid. 0 < grid ! i"
    and P: "block_partitioning_ctor data grid (iota (length grid)) = Some P"
    and g: "length g = length data" "\<forall>d<length data. 0 \<le> g ! d"
  shows "grid_owner P g = Some (map (\<lambda>i. g ! i div block_size P ! i) [0..<length grid])"
proof -
  note F = identity_fields [OF G pd pg P]
  let ?G = "length grid"
  have "grid_owner_loop P g [0..<?G] (replicate ?G 0)
      = Some (map (\<lambda>d. if d < ?G then g ! d div block_size P ! d else replicate ?G 0 ! d)
                  [0..<length (replicate ?G (0::int))])"
  proof (rule index_loop_all [where L = "grid_owner_loop P g" and ?st0.0 = "replicate ?G 0"
        and G = ?G and f = "\<lambda>d. g ! d div block_size P ! d"])
    show "grid_owner_loop P g [] st = Some st" for st by simp
  next
    fix k :: nat and ks :: "nat list" and st :: "int list"
    assume k: "k < ?G" and len: "length st = length (replicate ?G (0::int))"
    have kd: "k < length g" "k < length (block_size P)" "k < length st"
      using k G len g(1) F(4) by simp_all
    have nn: "0 \<le> g ! k" "0 < block_size P ! k" using g(2) F(7) k G by simp_all
    show "grid_owner_loop P g (k # ks) st
        = grid_owner_loop P g ks (st[k := g ! k div block_size P ! k])"
      by (simp add: F(3) arr_get_iota [OF k] arr_get_nat [OF kd(1)] arr_get_nat [OF kd(2)]
            cpp_div_pos [OF nn] arr_set_nat [OF kd(3)])
  next
    show "?G \<le> length (replicate ?G (0::int))" by simp
  qed
  then show ?thesis by (simp add: grid_owner_def F(2) cong: map_cong)
qed

lemma global_to_local_identity:
  assumes G: "length grid \<le> length data"
    and pd: "\<forall>d<length data. 0 < data ! d" and pg: "\<forall>i<length grid. 0 < grid ! i"
    and P: "block_partitioning_ctor data grid (iota (length grid)) = Some P"
    and g: "length g = length data" "\<forall>d<length data. 0 \<le> g ! d"
  shows "global_to_local P g = Some (map (\<lambda>d. g ! d mod block_size P ! d) [0..<length data])"
proof -
  note F = identity_fields [OF G pd pg P]
  let ?D = "length data"
  have "global_to_local_loop (block_size P) [0..<?D] g
      = Some (map (\<lambda>d. if d < ?D then g ! d mod block_size P ! d else g ! d) [0..<length g])"
  proof (rule index_loop_all [where L = "global_to_local_loop (block_size P)" and ?st0.0 = g
        and G = ?D and f = "\<lambda>d. g ! d mod block_size P ! d"])
    show "global_to_local_loop (block_size P) [] st = Some st" for st by simp
  next
    fix k :: nat and ks :: "nat list" and st :: "int list"
    assume k: "k < ?D" and len: "length st = length g"
      and inv: "\<forall>d. k \<le> d \<and> d < length g \<longrightarrow> st ! d = g ! d"
    have kd: "k < length st" "k < length (block_size P)" using k len g(1) F(4) by simp_all
    have stk: "st ! k = g ! k" using inv k g(1) by simp
    have nn: "0 \<le> g ! k" "0 < block_size P ! k" using g(2) F(7) k by simp_all
    show "global_to_local_loop (block_size P) (k # ks) st
        = global_to_local_loop (block_size P) ks (st[k := g ! k mod block_size P ! k])"
      by (simp add: arr_get_nat [OF kd(1)] arr_get_nat [OF kd(2)]
            cpp_mod_pos [OF nn] arr_set_nat [OF kd(1)] stk)
  next
    show "?D \<le> length g" using g(1) by simp
  qed
  then show ?thesis by (simp add: global_to_local_def F(1) g(1) cong: map_cong)
qed

lemma length_unflatten_rev: "length (unflatten_rev ns t) = length ns"
  by (induction ns arbitrary: t) simp_all

lemma length_unflatten: "length (unflatten volume t) = length volume"
  by (simp add: unflatten_def length_unflatten_rev)

lemma unflatten_rev_foldl:
  assumes "list_all2 (\<lambda>n i. 0 \<le> i \<and> i < n) vs ixs"
  shows "unflatten_rev (rev vs @ ws) (foldl (\<lambda>acc (n, i). acc * n + i) acc (zip vs ixs))
       = rev ixs @ unflatten_rev ws acc"
  using assms
proof (induction vs ixs arbitrary: acc ws rule: list_all2_induct)
  case Nil
  show ?case by simp
next
  case (Cons v vs i ixs)
  have m: "i mod v = i" "i div v = 0" "v \<noteq> 0"
    using Cons.hyps(1) by simp_all
  have "unflatten_rev (rev (v # vs) @ ws)
          (foldl (\<lambda>acc (n, i). acc * n + i) acc (zip (v # vs) (i # ixs)))
      = unflatten_rev (rev vs @ (v # ws))
          (foldl (\<lambda>acc (n, i). acc * n + i) (acc * v + i) (zip vs ixs))"
    by simp
  also have "\<dots> = rev ixs @ unflatten_rev (v # ws) (acc * v + i)"
    by (rule Cons.IH)
  also have "\<dots> = rev (i # ixs) @ unflatten_rev ws acc"
    by (simp add: m)
  finally show ?case .
qed

lemma unflatten_flatten:
  assumes "length ixs = length volume" "\<forall>k<length volume. 0 \<le> ixs ! k \<and> ixs ! k < volume ! k"
  shows "unflatten volume (flatten volume ixs) = ixs"
proof -
  have "list_all2 (\<lambda>n i. 0 \<le> i \<and> i < n) volume ixs"
    using assms by (simp add: list_all2_conv_all_nth)
  from unflatten_rev_foldl [OF this, of "[]" 0] show ?thesis
    by (simp add: unflatten_def flatten_def)
qed

lemma origin_identity:
  assumes G: "length grid \<le> length data"
    and pd: "\<forall>d<length data. 0 < data ! d" and pg: "\<forall>i<length grid. 0 < grid ! i"
    and P: "block_partitioning_ctor data grid (iota (length grid)) = Some P"
  shows "origin P t = Some (map (\<lambda>d. if d < length grid
                                        then block_size P ! d * unflatten grid t ! d else 0)
                                [0..<length data])"
proof -
  note F = identity_fields [OF G pd pg P]
  let ?G = "length grid" and ?D = "length data" and ?mi = "unflatten grid t"
  have "origin_loop P ?mi [0..<?G] (replicate ?D 0)
      = Some (map (\<lambda>d. if d < ?G then block_size P ! d * ?mi ! d else replicate ?D 0 ! d)
                  [0..<length (replicate ?D (0::int))])"
  proof (rule index_loop_all [where L = "origin_loop P ?mi" and ?st0.0 = "replicate ?D 0"
        and G = ?G and f = "\<lambda>d. block_size P ! d * ?mi ! d"])
    show "origin_loop P ?mi [] st = Some st" for st by simp
  next
    fix k :: nat and ks :: "nat list" and st :: "int list"
    assume k: "k < ?G" and len: "length st = length (replicate ?D (0::int))"
    have kd: "k < length (block_size P)" "k < length ?mi" "k < length st"
      using k G len F(4) by (simp_all add: length_unflatten)
    show "origin_loop P ?mi (k # ks) st
        = origin_loop P ?mi ks (st[k := block_size P ! k * ?mi ! k])"
      by (simp add: F(3) arr_get_iota [OF k] arr_get_nat [OF kd(1)] arr_get_nat [OF kd(2)]
            arr_set_nat [OF kd(3)])
  next
    show "?G \<le> length (replicate ?D (0::int))" using G by simp
  qed
  then show ?thesis by (simp add: origin_def F(1,2) cong: map_cong)
qed

lemma local_size_identity:
  assumes G: "length grid \<le> length data"
    and pd: "\<forall>d<length data. 0 < data ! d" and pg: "\<forall>i<length grid. 0 < grid ! i"
    and P: "block_partitioning_ctor data grid (iota (length grid)) = Some P"
    and ix: "length idxs = length grid" "\<forall>i<length grid. idxs ! i < grid ! i"
  shows "local_size P idxs
       = Some (map (\<lambda>d. if d < length grid
                          then (data ! d + grid ! d - idxs ! d - 1) div grid ! d else data ! d)
                   [0..<length data])"
proof -
  note F = identity_fields [OF G pd pg P]
  let ?G = "length grid" and ?D = "length data"
  have "local_size_loop P idxs [0..<?G] data
      = Some (map (\<lambda>d. if d < ?G then (data ! d + grid ! d - idxs ! d - 1) div grid ! d
                         else data ! d) [0..<length data])"
  proof (rule index_loop_all [where L = "local_size_loop P idxs" and ?st0.0 = data
        and G = ?G and f = "\<lambda>d. (data ! d + grid ! d - idxs ! d - 1) div grid ! d"])
    show "local_size_loop P idxs [] st = Some st" for st by simp
  next
    fix k :: nat and ks :: "nat list" and st :: "int list"
    assume k: "k < ?G" and len: "length st = length data"
    have kd: "k < length data" "k < length idxs" "k < length st"
      using k G len ix(1) by simp_all
    have "0 < data ! k" "idxs ! k < grid ! k" using pd ix(2) k kd(1) by simp_all
    then have nn: "0 \<le> data ! k + grid ! k - idxs ! k - 1" by simp
    have gp: "0 < grid ! k" using pg k by simp
    show "local_size_loop P idxs (k # ks) st
        = local_size_loop P idxs ks (st[k := (data ! k + grid ! k - idxs ! k - 1) div grid ! k])"
      by (simp add: F(1,2,3) arr_get_iota [OF k] arr_get_nat [OF kd(1)] arr_get_nat [OF k]
            arr_get_nat [OF kd(2)] cpp_div_pos [OF nn gp] arr_set_nat [OF kd(3)])
  next
    show "?G \<le> length data" by (rule G)
  qed
  then show ?thesis by (simp add: local_size_def F(1,2))
qed

lemma shifted_floor_sum:
  assumes "0 < n"
  shows "(\<Sum>j<n. (int m + int j) div int n) = int m"
proof (induction m)
  case 0
  have "(int j) div int n = 0" if "j < n" for j using that by simp
  then show ?case by simp
next
  case (Suc m)
  let ?f = "\<lambda>j. (int m + int j) div int n"
  have "(\<Sum>j<n. (int (Suc m) + int j) div int n) = (\<Sum>j<n. ?f (Suc j))"
    by (intro sum.cong) (simp_all add: algebra_simps)
  moreover have "?f 0 + (\<Sum>j<n. ?f (Suc j)) = (\<Sum>j<n. ?f j) + ?f n"
    using sum.lessThan_Suc_shift [of ?f n] sum.lessThan_Suc [of ?f n] by simp
  moreover have "?f n = ?f 0 + 1" using assms by simp
  ultimately show ?case using Suc.IH by simp
qed

lemma ceil_share_sum:
  assumes "0 < n"
  shows "sum_list (map (\<lambda>k. (int m + int n - int k - 1) div int n) [0..<n]) = int m"
proof -
  let ?f = "\<lambda>j. (int m + int j) div int n"
  have "sum_list (map (\<lambda>k. (int m + int n - int k - 1) div int n) [0..<n])
      = (\<Sum>k<n. (int m + int n - int k - 1) div int n)"
    by (simp add: interv_sum_list_conv_sum_set_nat atLeast0LessThan)
  also have "\<dots> = (\<Sum>k<n. ?f (n - Suc k))"
    by (intro sum.cong) (simp_all add: algebra_simps of_nat_diff)
  also have "\<dots> = (\<Sum>j<n. ?f j)"
    by (rule sum.nat_diff_reindex)
  also have "\<dots> = int m" by (rule shifted_floor_sum [OF assms])
  finally show ?thesis .
qed

text \<open>
  Under the default axis map the consistency property of C2 holds: for positive extents,
  \<open>G \<le> D\<close> and an in-bounds global index \<open>g\<close>, the origin of the owner plus the local
  index is \<open>g\<close>, on every axis.
\<close>

lemma ownership_identity:
  assumes G: "length grid \<le> length data"
    and pd: "\<forall>d<length data. 0 < data ! d" and pg: "\<forall>i<length grid. 0 < grid ! i"
    and P: "block_partitioning_ctor data grid (iota (length grid)) = Some P"
    and g: "length g = length data" "\<forall>d<length data. 0 \<le> g ! d \<and> g ! d < data ! d"
  shows "owner_origin_plus_local P g = Some g"
proof -
  note F = identity_fields [OF G pd pg P]
  let ?G = "length grid" and ?D = "length data"
  let ?ow = "map (\<lambda>i. g ! i div block_size P ! i) [0..<?G]"
  have g0: "\<forall>d<length data. 0 \<le> g ! d" using g(2) by simp
  have ow: "grid_owner P g = Some ?ow"
    by (rule grid_owner_identity [OF G pd pg P g(1) g0])
  have inb: "\<forall>k<?G. 0 \<le> ?ow ! k \<and> ?ow ! k < grid ! k"
  proof (intro allI impI)
    fix k assume k: "k < ?G"
    then have kd: "k < ?D" using G by simp
    have b: "0 < block_size P ! k" using F(7) kd by simp
    have "g ! k < data ! k" "data ! k \<le> block_size P ! k * grid ! k"
      using g(2) F(8) k kd by simp_all
    then have "g ! k < grid ! k * block_size P ! k" by (simp add: mult.commute)
    moreover have "g ! k = g ! k div block_size P ! k * block_size P ! k + g ! k mod block_size P ! k"
      by (rule div_mult_mod_eq [symmetric])
    moreover have "0 \<le> g ! k mod block_size P ! k" using b by simp
    ultimately have "g ! k div block_size P ! k * block_size P ! k < grid ! k * block_size P ! k"
      by linarith
    then have "g ! k div block_size P ! k < grid ! k"
      by (rule mult_right_less_imp_less) (use b in simp)
    moreover have "0 \<le> g ! k div block_size P ! k"
      using b g0 kd by (simp add: pos_imp_zdiv_nonneg_iff)
    ultimately show "0 \<le> ?ow ! k \<and> ?ow ! k < grid ! k" using k by simp
  qed
  have un: "unflatten grid (flatten grid ?ow) = ?ow"
    by (rule unflatten_flatten) (use inb in simp_all)
  have org: "origin P (flatten (grid_size P) ?ow)
      = Some (map (\<lambda>d. if d < ?G then block_size P ! d * ?ow ! d else 0) [0..<?D])"
    unfolding F(2) using origin_identity [OF G pd pg P, of "flatten grid ?ow"] by (simp only: un)
  have loc: "global_to_local P g = Some (map (\<lambda>d. g ! d mod block_size P ! d) [0..<?D])"
    by (rule global_to_local_identity [OF G pd pg P g(1) g0])
  have "map2 (+) (map (\<lambda>d. if d < ?G then block_size P ! d * ?ow ! d else 0) [0..<?D])
          (map (\<lambda>d. g ! d mod block_size P ! d) [0..<?D]) = g"
  proof (rule nth_equalityI)
    show "length (map2 (+) (map (\<lambda>d. if d < ?G then block_size P ! d * ?ow ! d else 0) [0..<?D])
          (map (\<lambda>d. g ! d mod block_size P ! d) [0..<?D])) = length g"
      using g(1) by simp
  next
    fix d assume "d < length (map2 (+)
          (map (\<lambda>d. if d < ?G then block_size P ! d * ?ow ! d else 0) [0..<?D])
          (map (\<lambda>d. g ! d mod block_size P ! d) [0..<?D]))"
    then have d: "d < ?D" by simp
    show "map2 (+) (map (\<lambda>d. if d < ?G then block_size P ! d * ?ow ! d else 0) [0..<?D])
          (map (\<lambda>d. g ! d mod block_size P ! d) [0..<?D]) ! d = g ! d"
    proof (cases "d < ?G")
      case True
      then show ?thesis using d by simp
    next
      case False
      then have "block_size P ! d = data ! d" using F(6) d by simp
      moreover have "g ! d mod data ! d = g ! d" using g(2) d by simp
      ultimately show ?thesis using d False by simp
    qed
  qed
  then show ?thesis
    by (simp only: owner_origin_plus_local_def ow org loc bind.bind_lunit)
qed

text \<open>
  Under the default axis map the sum property of C9 holds: along a partitioned axis, the
  local sizes of the processors add up to the global extent.
\<close>

lemma local_size_sum_identity:
  assumes G: "length grid \<le> length data"
    and pd: "\<forall>d<length data. 0 < data ! d" and pg: "\<forall>i<length grid. 0 < grid ! i"
    and P: "block_partitioning_ctor data grid (iota (length grid)) = Some P"
    and i: "i < length grid"
    and base: "length base = length grid" "\<forall>k<length grid. base ! k < grid ! k"
  shows "local_size_sum P i i base = Some (data ! i)"
proof -
  note F = identity_fields [OF G pd pg P]
  define n where "n = nat (grid ! i)"
  define m where "m = nat (data ! i)"
  have id: "i < length data" using i G by simp
  have gi: "0 < grid ! i" using pg i by blast
  have n: "0 < n" "int n = grid ! i" using gi by (simp_all add: n_def)
  have m: "int m = data ! i" using pd id by (simp add: m_def order.strict_implies_order)
  have one: "(do { sz \<leftarrow> local_size P (base[i := int k]); arr_get sz (int i) })
       = Some ((int m + int n - int k - 1) div int n)" if k: "k < n" for k
  proof -
    have inr: "\<forall>j<length grid. (base[i := int k]) ! j < grid ! j"
    proof (intro allI impI)
      fix j assume j: "j < length grid"
      show "(base[i := int k]) ! j < grid ! j"
      proof (cases "j = i")
        case True
        have "int k < int n" using k by simp
        then show ?thesis using True i base(1) n(2) by simp
      next
        case False
        then show ?thesis using base(2) j by simp
      qed
    qed
    have len: "length (base[i := int k]) = length grid" using base(1) by simp
    have bi: "(base[i := int k]) ! i = int k" using i base(1) by simp
    show ?thesis
      unfolding local_size_identity [OF G pd pg P len inr]
      using i id by (simp add: arr_get_nat bi n(2) m)
  qed
  have "local_sizes_along P i i base
      = those (map (\<lambda>k. Some ((int m + int n - int k - 1) div int n)) [0..<n])"
    unfolding local_sizes_along_def F(2) n_def [symmetric]
    by (rule arg_cong [where f = those], rule map_cong) (simp_all add: one)
  then have "local_sizes_along P i i base
      = Some (map (\<lambda>k. (int m + int n - int k - 1) div int n) [0..<n])"
    by (simp only: those_map_Some)
  then show ?thesis
    using ceil_share_sum [OF n(1), of m] by (simp add: local_size_sum_def m)
qed

text \<open>Both lemmas at work on a \<open>6 \<times> 7 \<times> 3\<close> array over a \<open>2 \<times> 3\<close> grid.\<close>

lemma identity_example:
  "\<exists>P. block_partitioning_ctor [6, 7, 3] [2, 3] (iota 2) = Some P
     \<and> owner_origin_plus_local P [5, 6, 2] = Some [5, 6, 2]
     \<and> local_size_sum P 1 1 [0, 0] = Some 7"
proof -
  let ?data = "[6, 7, 3] :: int list" and ?grid = "[2, 3] :: int list"
  have G: "length ?grid \<le> length ?data" by simp
  have pd: "\<forall>d<length ?data. 0 < ?data ! d" by (simp add: nth_Cons' less_Suc_eq)
  have pg: "\<forall>i<length ?grid. 0 < ?grid ! i" by (simp add: nth_Cons' less_Suc_eq)
  obtain P where P: "block_partitioning_ctor ?data ?grid (iota (length ?grid)) = Some P"
    using ctor_identity [OF G pd pg] by blast
  have g: "length [5, 6, 2 :: int] = length ?data"
    "\<forall>d<length ?data. 0 \<le> [5, 6, 2 :: int] ! d \<and> [5, 6, 2 :: int] ! d < ?data ! d"
    by (simp_all add: nth_Cons' less_Suc_eq)
  have b: "length [0, 0 :: int] = length ?grid" "\<forall>k<length ?grid. [0, 0 :: int] ! k < ?grid ! k"
    by (simp_all add: nth_Cons' less_Suc_eq)
  have "owner_origin_plus_local P [5, 6, 2] = Some [5, 6, 2]"
    by (rule ownership_identity [OF G pd pg P g])
  moreover have "local_size_sum P 1 1 [0, 0] = Some (?data ! 1)"
    by (rule local_size_sum_identity [OF G pd pg P _ b]) simp
  ultimately show ?thesis using P by (intro exI [of _ P]) (simp add: numeral_2_eq_2)
qed

subsection \<open>Where the operations disagree with the block distribution\<close>

lemma ctor_10_4:
  "block_partitioning_ctor [10] [4] (iota 1)
     = Some \<lparr>global_size = [10], grid_size = [4], axes = [0], block_size = [3]\<rparr>"
  by code_simp

lemma ctor_44_21:
  "block_partitioning_ctor [4, 4] [2, 1] [1, 0]
     = Some \<lparr>global_size = [4, 4], grid_size = [2, 1], axes = [1, 0], block_size = [4, 2]\<rparr>"
  by code_simp

lemma ctor_45_21:
  "block_partitioning_ctor [4, 5] [2, 1] [1, 0]
     = Some \<lparr>global_size = [4, 5], grid_size = [2, 1], axes = [1, 0], block_size = [4, 3]\<rparr>"
  by code_simp

text \<open>
  C5. On the one-dimensional partitioning of \<open>10\<close> elements over \<open>4\<close> processors
  (block size \<open>3\<close>) \<^verbatim>\<open>local_size\<close> returns \<open>3, 3, 2, 2\<close>: processor \<open>2\<close>, which is not the
  last, does not get the block size, and the last one does not get the remainder
  \<open>10 - 3 * 3 = 1\<close>, although \<^verbatim>\<open>grid_owner\<close> gives the elements \<open>6, 7, 8\<close> to processor
  \<open>2\<close> and only \<open>9\<close> to processor \<open>3\<close>.
\<close>

theorem local_size_not_block:
  "\<exists>P. block_partitioning_ctor [10] [4] (iota 1) = Some P
     \<and> block_size P = [3]
     \<and> map (\<lambda>k. local_size P [k]) [0, 1, 2, 3] = [Some [3], Some [3], Some [2], Some [2]]
     \<and> map (\<lambda>x. grid_owner P [x]) [6, 7, 8, 9] = [Some [2], Some [2], Some [2], Some [3]]"
  by (rule exI [of _ "\<lparr>global_size = [10], grid_size = [4], axes = [0], block_size = [3]\<rparr>"],
      intro conjI ctor_10_4) code_simp+

text \<open>
  C2. With the axis map \<open>(1, 0)\<close> on a \<open>4 \<times> 4\<close> array over a \<open>2 \<times> 1\<close> grid, the global
  index \<open>(0, 3)\<close> is owned by grid coordinate \<open>(1, 0)\<close>, whose origin \<^verbatim>\<open>origin\<close> computes
  as \<open>(4, 0)\<close>; adding the local index \<open>(0, 1)\<close> gives \<open>(4, 1)\<close>, not \<open>(0, 3)\<close>.
  The multi-index is read at the data axis, not at the grid axis; under the identity
  axis map the two coincide and the property holds (\<open>ownership_identity\<close>).
\<close>

theorem origin_permuted_axes:
  "\<exists>P. block_partitioning_ctor [4, 4] [2, 1] [1, 0] = Some P
     \<and> grid_owner P [0, 3] = Some [1, 0]
     \<and> origin P (flatten (grid_size P) [1, 0]) = Some [4, 0]
     \<and> global_to_local P [0, 3] = Some [0, 1]
     \<and> owner_origin_plus_local P [0, 3] = Some [4, 1]"
  by (rule exI [of _ "\<lparr>global_size = [4, 4], grid_size = [2, 1], axes = [1, 0],
        block_size = [4, 2]\<rparr>"], intro conjI ctor_44_21) code_simp+

text \<open>
  C9. With the axis map \<open>(1, 0)\<close> on a \<open>4 \<times> 5\<close> array over a \<open>2 \<times> 1\<close> grid, data axis
  \<open>1\<close> (extent \<open>5\<close>) is split over grid axis \<open>0\<close> (two processors); both get local size
  \<open>3\<close>, and the sum is \<open>6\<close>. The grid index is read at the data axis, not at the grid
  axis; under the identity axis map the sum is the extent (\<open>local_size_sum_identity\<close>).
\<close>

theorem local_size_sum_permuted_axes:
  "\<exists>P. block_partitioning_ctor [4, 5] [2, 1] [1, 0] = Some P
     \<and> arr_get (global_size P) 1 = Some 5
     \<and> local_sizes_along P 0 1 [0, 0] = Some [3, 3]
     \<and> local_size_sum P 0 1 [0, 0] = Some 6"
  by (rule exI [of _ "\<lparr>global_size = [4, 5], grid_size = [2, 1], axes = [1, 0],
        block_size = [4, 3]\<rparr>"], intro conjI ctor_45_21) code_simp+

end
